theory Spec2Isabelle
  imports Main
begin

section \<open>Errors, panics and slices\<close>

text \<open>
  The error values of reader.go: \<open>io.EOF\<close>, \<open>io.ErrNoProgress\<close>, the three exported
  errors of the package, and any other error value a source or a sink may hand back
  (\<open>OtherError\<close>, told apart by a number). A \<open>nil\<close> error is \<open>None\<close>.
\<close>

datatype error =
    EOF
  | ErrNoProgress
  | ErrInvalidUnreadElem
  | ErrBufferFull
  | ErrNegativeCount
  | OtherError nat

text \<open>
  The run-time panics the code can raise: the two explicit \<open>panic(errNegative...)\<close>,
  \<open>panic("bufio: tried to fill full buffer")\<close>, a slice or index expression out of
  range, and a nil dereference.
\<close>

datatype panic =
    errNegativeRead
  | errNegativeWrite
  | FillFullBuffer
  | OutOfRange
  | NilDeref

definition defaultBufSize :: int where
  "defaultBufSize = 64"

definition maxConsecutiveEmptyReads :: nat where
  "maxConsecutiveEmptyReads = 100"

definition minReadBufferSize :: int where
  "minReadBufferSize = 16"

text \<open>
  \<open>xs[lo:hi]\<close> on a slice whose capacity is its length (every buffer here comes from
  \<open>make([]T, size)\<close>): it panics unless \<open>0 \<le> lo \<le> hi \<le> len(xs)\<close>.
\<close>

definition slice :: "'a list \<Rightarrow> int \<Rightarrow> int \<Rightarrow> panic + 'a list" where
  "slice xs lo hi =
     (if 0 \<le> lo \<and> lo \<le> hi \<and> hi \<le> int (length xs)
      then Inr (take (nat (hi - lo)) (drop (nat lo) xs))
      else Inl OutOfRange)"

text \<open>
  The builtin \<open>copy(dst, src)\<close>: the contents of \<open>dst\<close> afterwards. The number of
  elements copied is \<open>min (length dst) (length src)\<close>.
\<close>

definition copy :: "'a list \<Rightarrow> 'a list \<Rightarrow> 'a list" where
  "copy dst src = take (length dst) src @ drop (length src) dst"

section \<open>The capabilities and the reader\<close>

text \<open>
  A value of \<open>ReadInterface[T]\<close> is an object with a state \<open>'s\<close> and a method
  \<open>Read(p []T) (int, error)\<close>. The method sees the slice it is given and returns the
  count, the error, what it wrote (copied into \<open>p\<close> from index 0: a callee cannot change
  the length of its caller's slice) and its new state. Whether the dynamic type also has
  \<open>WriteTo\<close> (the assertion \<open>b.rd.(WriteToInterface[T])\<close>) is the optional second
  method, which works on the source and on the sink \<open>'k\<close> it is handed.
\<close>

record ('a, 's, 'k) ReadInterface =
  rd_Read :: "'s \<Rightarrow> 'a list \<Rightarrow> int \<times> error option \<times> 'a list \<times> 's"
  rd_WriteTo :: "('s \<Rightarrow> 'k \<Rightarrow> int \<times> error option \<times> 's \<times> 'k) option"

text \<open>
  A value of \<open>WriteInterface[T]\<close>: \<open>Write(p []T) (int, error)\<close>, and \<open>ReadFrom\<close>
  when the dynamic type has it (the assertion \<open>w.(ReadFromInterface[T])\<close>).
\<close>

record ('a, 's, 'k) WriteInterface =
  w_Write :: "'k \<Rightarrow> 'a list \<Rightarrow> int \<times> error option \<times> 'k"
  w_ReadFrom :: "('k \<Rightarrow> 's \<Rightarrow> int \<times> error option \<times> 'k \<times> 's) option"

type_synonym addr = nat

text \<open>
  \<open>lastElem *T\<close> is a pointer. The code stores three kinds of address in it:
  \<open>&p[n-1]\<close>, an element of the caller's destination slice (\<open>InDest\<close>),
  \<open>&b.buf[b.r-1]\<close>, an element of the buffer (\<open>InBuf\<close>), and \<open>&c\<close>, a local
  variable of \<open>ReadElem\<close> that nothing else can reach (\<open>Cell\<close>, with its value).
\<close>

datatype 'a ptr = InBuf nat | InDest addr nat | Cell 'a

text \<open>
  The struct \<open>Reader[T]\<close>. \<open>r\<close> and \<open>w\<close> are Go \<open>int\<close>s, modelled as integers:
  the code only adds counts to them, so they stay far from the 64-bit range as long as
  the counts do. A nil \<open>buf\<close> is the empty list (a buffer made by \<open>make\<close> is never empty
  here).
\<close>

record ('a, 'i) Reader =
  buf :: "'a list"
  rd :: 'i
  r :: int
  w :: int
  err :: "error option"
  lastElem :: "'a ptr option"

text \<open>
  What a method of the reader runs in: the reader itself, the state of the source object
  behind \<open>rd\<close>, the caller's destination slices (by address) and, as a ghost field, the
  number of calls of the source's \<open>Read\<close> made so far.
\<close>

record ('a, 's, 'k) machine = "('a, ('a, 's, 'k) ReadInterface) Reader" +
  src :: 's
  mem :: "addr \<Rightarrow> 'a list"
  calls :: nat

definition deref :: "('a, 's, 'k) machine \<Rightarrow> 'a ptr \<Rightarrow> 'a" where
  "deref st q =
     (case q of
        InBuf i \<Rightarrow> buf st ! i
      | InDest a i \<Rightarrow> mem st a ! i
      | Cell c \<Rightarrow> c)"

definition Buffered :: "('a, 's, 'k) machine \<Rightarrow> int" where
  "Buffered st = w st - r st"

definition Size :: "('a, 's, 'k) machine \<Rightarrow> int" where
  "Size st = int (length (buf st))"

definition readErr :: "('a, 's, 'k) machine \<Rightarrow> error option \<times> ('a, 's, 'k) machine" where
  "readErr st = (err st, st\<lparr>err := None\<rparr>)"

subsection \<open>fill\<close>

text \<open>
  The loop of \<open>fill\<close>, \<open>for i := maxConsecutiveEmptyReads; i > 0; i--\<close>, by recursion
  on \<open>i\<close>; falling out of the loop sets \<open>io.ErrNoProgress\<close>.
\<close>

fun fill_loop :: "nat \<Rightarrow> ('a, 's, 'k) machine \<Rightarrow> panic + ('a, 's, 'k) machine" where
  "fill_loop 0 st = Inr (st\<lparr>err := Some ErrNoProgress\<rparr>)"
| "fill_loop (Suc i) st =
     (case slice (buf st) (w st) (int (length (buf st))) of
        Inl x \<Rightarrow> Inl x
      | Inr p \<Rightarrow>
         (case rd_Read (rd st) (src st) p of
            (n, e, p', s') \<Rightarrow>
              if n < 0 then Inl errNegativeRead
              else
                let st1 = st\<lparr>buf := take (nat (w st)) (buf st) @ copy p p',
                             w := w st + n, src := s', calls := Suc (calls st)\<rparr>
                in if e \<noteq> None then Inr (st1\<lparr>err := e\<rparr>)
                   else if n > 0 then Inr st1
                   else fill_loop i st1))"

text \<open>The first step of \<open>fill\<close>: slide the valid region to the front of the buffer.\<close>

definition slide :: "('a, 's, 'k) machine \<Rightarrow> panic + ('a, 's, 'k) machine" where
  "slide st =
     (if r st > 0
      then (case slice (buf st) (r st) (w st) of
              Inl x \<Rightarrow> Inl x
            | Inr xs \<Rightarrow> Inr (st\<lparr>buf := copy (buf st) xs, r := 0, w := w st - r st\<rparr>))
      else Inr st)"

definition fill :: "('a, 's, 'k) machine \<Rightarrow> panic + ('a, 's, 'k) machine" where
  "fill st =
     (case slide st of
        Inl x \<Rightarrow> Inl x
      | Inr st1 \<Rightarrow>
          if w st1 \<ge> int (length (buf st1)) then Inl FillFullBuffer
          else fill_loop maxConsecutiveEmptyReads st1)"

text \<open>
  What every loop around \<open>fill\<close> relies on: a \<open>fill\<close> that returns has either left an
  error pending or made the valid region strictly longer; the buffer keeps its length.
\<close>

lemma length_copy [simp]: "length (copy dst xs) = length dst"
  by (simp add: copy_def)

lemma fill_loop_progress:
  "fill_loop i st = Inr st' \<Longrightarrow>
     r st' = r st \<and> length (buf st') = length (buf st) \<and> w st \<le> w st' \<and>
     (err st' = None \<longrightarrow> w st < w st')"
proof (induction i arbitrary: st)
  case 0
  then show ?case by auto
next
  case (Suc i)
  from Suc.prems obtain p where p: "slice (buf st) (w st) (int (length (buf st))) = Inr p"
    by (auto split: sum.splits)
  then have wr: "0 \<le> w st" "w st \<le> int (length (buf st))"
    and lp: "length p = length (buf st) - nat (w st)"
    by (auto simp: slice_def split: if_splits)
  obtain n e p' s' where c: "rd_Read (rd st) (src st) p = (n, e, p', s')"
    by (cases "rd_Read (rd st) (src st) p") auto
  define st1 where "st1 = st\<lparr>buf := take (nat (w st)) (buf st) @ copy p p',
                             w := w st + n, src := s', calls := Suc (calls st)\<rparr>"
  have n0: "0 \<le> n" using Suc.prems p c by (auto split: if_splits)
  have l1: "length (buf st1) = length (buf st)" using wr lp by (simp add: st1_def)
  show ?case
  proof (cases "e \<noteq> None")
    case True
    then have "st' = st1\<lparr>err := e\<rparr>" using Suc.prems p c n0 by (simp add: st1_def Let_def)
    then show ?thesis using True n0 l1 by (auto simp: st1_def)
  next
    case False
    note eN = this
    show ?thesis
    proof (cases "n > 0")
      case True
      then have "st' = st1" using Suc.prems p c eN by (simp add: st1_def Let_def)
      then show ?thesis using True l1 by (auto simp: st1_def)
    next
      case False
      then have "fill_loop i st1 = Inr st'" using Suc.prems p c eN n0 by (simp add: st1_def Let_def)
      from Suc.IH [OF this] show ?thesis using l1 n0 by (auto simp: st1_def)
    qed
  qed
qed

lemma fill_progress:
  assumes "fill st = Inr st'"
  shows "length (buf st') = length (buf st)"
    and "r st' \<le> 0 \<or> r st' = r st"
    and "Buffered st \<le> Buffered st'"
    and "err st' = None \<Longrightarrow> Buffered st < Buffered st'"
proof -
  obtain st1 where s1: "slide st = Inr st1"
    and fl: "fill_loop maxConsecutiveEmptyReads st1 = Inr st'"
    using assms by (auto simp: fill_def split: sum.splits if_splits)
  from s1 have a: "length (buf st1) = length (buf st)" "Buffered st1 = Buffered st" "r st1 \<le> 0"
    by (auto simp: Buffered_def slide_def split: if_splits sum.splits)
  from fill_loop_progress [OF fl] a
  show "length (buf st') = length (buf st)" and "r st' \<le> 0 \<or> r st' = r st"
    and "Buffered st \<le> Buffered st'" and "err st' = None \<Longrightarrow> Buffered st < Buffered st'"
    by (auto simp: Buffered_def)
qed

subsection \<open>Discard\<close>

function Discard_loop ::
  "int \<Rightarrow> int \<Rightarrow> ('a, 's, 'k) machine \<Rightarrow> panic + ((int \<times> error option) \<times> ('a, 's, 'k) machine)"
where
  "Discard_loop n remain st =
     (case (if Buffered st = 0 then fill st else Inr st) of
        Inl x \<Rightarrow> Inl x
      | Inr st1 \<Rightarrow>
          let skip = (if Buffered st1 > remain then remain else Buffered st1);
              st2 = st1\<lparr>r := r st1 + skip\<rparr>;
              remain' = remain - skip
          in if remain' = 0 then Inr ((n, None), st2)
             else if err st2 \<noteq> None
               then (case readErr st2 of (e, st3) \<Rightarrow> Inr ((n - remain', e), st3))
               else Discard_loop n remain' st2)"
  by pat_completeness auto

termination Discard_loop
proof (relation "measure (\<lambda>(n, remain, st).
          2 * nat (remain - Buffered st) + (if Buffered st = 0 then 0 else 1))", goal_cases)
  case 1
  show ?case by simp
next
  case (2 n remain st st1 skip st2 remain')
  show ?case
  proof (cases "Buffered st = 0")
    case True
    with 2 have f: "fill st = Inr st1" by simp
    have e: "err st1 = None" using 2 by simp
    from fill_progress(4) [OF f e] True have b1: "0 < Buffered st1" by simp
    have le: "Buffered st1 \<le> remain" using 2 by (auto split: if_splits)
    then have sk: "skip = Buffered st1" using 2 by simp
    have "Buffered st2 = 0" using 2 sk by (simp add: Buffered_def)
    moreover have "remain' = remain - Buffered st1" using 2 sk by simp
    ultimately show ?thesis using True b1 le by simp
  next
    case False
    with 2 have s1: "st1 = st" by simp
    have le: "Buffered st \<le> remain" using 2 s1 by (auto split: if_splits)
    then have sk: "skip = Buffered st" using 2 s1 by simp
    have "Buffered st2 = 0" using 2 sk s1 by (simp add: Buffered_def)
    moreover have "remain' = remain - Buffered st" using 2 sk by simp
    ultimately show ?thesis using False by simp
  qed
qed

declare Discard_loop.simps [simp del]

definition Discard ::
  "int \<Rightarrow> ('a, 's, 'k) machine \<Rightarrow> panic + ((int \<times> error option) \<times> ('a, 's, 'k) machine)"
where
  "Discard n st =
     (if n < 0 then Inr ((0, Some ErrNegativeCount), st)
      else if n = 0 then Inr ((0, None), st)
      else Discard_loop n n (st\<lparr>lastElem := None\<rparr>))"

subsection \<open>Peek\<close>

function Peek_loop :: "int \<Rightarrow> ('a, 's, 'k) machine \<Rightarrow> panic + ('a, 's, 'k) machine" where
  "Peek_loop n st =
     (if w st - r st < n \<and> w st - r st < int (length (buf st)) \<and> err st = None
      then (case fill st of Inl x \<Rightarrow> Inl x | Inr st' \<Rightarrow> Peek_loop n st')
      else Inr st)"
  by pat_completeness auto

termination Peek_loop
proof (relation "measure (\<lambda>(n, st).
          if err st = None then 1 + nat (int (length (buf st)) - Buffered st) else 0)", goal_cases)
  case 1
  show ?case by simp
next
  case (2 n st st')
  then have f: "fill st = Inr st'" by simp
  from 2 have c: "Buffered st < int (length (buf st))" "err st = None"
    by (simp_all add: Buffered_def)
  show ?case
    using fill_progress(1) [OF f] fill_progress(4) [OF f] c by auto
qed

declare Peek_loop.simps [simp del]

text \<open>
  \<open>Peek\<close> returns a slice of the buffer; the model returns its contents (\<open>nil\<close> is the
  empty list).
\<close>

definition Peek ::
  "int \<Rightarrow> ('a, 's, 'k) machine \<Rightarrow> panic + (('a list \<times> error option) \<times> ('a, 's, 'k) machine)"
where
  "Peek n st0 =
     (if n < 0 then Inr (([], Some ErrNegativeCount), st0)
      else
        (case Peek_loop n (st0\<lparr>lastElem := None\<rparr>) of
           Inl x \<Rightarrow> Inl x
         | Inr st \<Rightarrow>
             if n > int (length (buf st)) then
               (case slice (buf st) (r st) (w st) of
                  Inl x \<Rightarrow> Inl x
                | Inr xs \<Rightarrow> Inr ((xs, Some ErrBufferFull), st))
             else if w st - r st < n then
               (case readErr st of
                  (e, st') \<Rightarrow>
                    (case slice (buf st') (r st') (r st' + (w st - r st)) of
                       Inl x \<Rightarrow> Inl x
                     | Inr xs \<Rightarrow>
                         Inr ((xs, if e = None then Some ErrBufferFull else e), st')))
             else
               (case slice (buf st) (r st) (r st + n) of
                  Inl x \<Rightarrow> Inl x
                | Inr xs \<Rightarrow> Inr ((xs, None), st))))"

subsection \<open>Read\<close>

text \<open>
  The end of \<open>Read\<close>, from \<open>n = copy(p, b.buf[b.r:b.w])\<close> on; both the path that found
  data in the buffer and the path that has just read into it arrive here. \<open>p\<close> is the
  address of the caller's slice.
\<close>

definition Read_copy ::
  "addr \<Rightarrow> ('a, 's, 'k) machine \<Rightarrow> panic + ((int \<times> error option) \<times> ('a, 's, 'k) machine)"
where
  "Read_copy p st =
     (case slice (buf st) (r st) (w st) of
        Inl x \<Rightarrow> Inl x
      | Inr xs \<Rightarrow>
          let n = int (min (length (mem st p)) (length xs));
              st1 = st\<lparr>r := r st + n, mem := (mem st)(p := copy (mem st p) xs)\<rparr>
          in if 0 \<le> r st1 - 1 \<and> r st1 - 1 < int (length (buf st1))
             then Inr ((n, None), st1\<lparr>lastElem := Some (InBuf (nat (r st1 - 1)))\<rparr>)
             else Inl OutOfRange)"

definition Read ::
  "addr \<Rightarrow> ('a, 's, 'k) machine \<Rightarrow> panic + ((int \<times> error option) \<times> ('a, 's, 'k) machine)"
where
  "Read p st =
     (if length (mem st p) = 0 then
        (if Buffered st > 0 then Inr ((0, None), st)
         else (case readErr st of (e, st') \<Rightarrow> Inr ((0, e), st')))
      else if r st = w st then
        (if err st \<noteq> None then (case readErr st of (e, st') \<Rightarrow> Inr ((0, e), st'))
         else if length (mem st p) \<ge> length (buf st) then
           (case rd_Read (rd st) (src st) (mem st p) of
              (n, e, p', s') \<Rightarrow>
                let st1 = st\<lparr>err := e, src := s', calls := Suc (calls st),
                             mem := (mem st)(p := copy (mem st p) p')\<rparr>
                in if n < 0 then Inl errNegativeRead
                   else if n > 0 then
                     (if n - 1 < int (length (mem st p))
                      then (case readErr (st1\<lparr>lastElem := Some (InDest p (nat (n - 1)))\<rparr>) of
                              (e', st2) \<Rightarrow> Inr ((n, e'), st2))
                      else Inl OutOfRange)
                   else (case readErr st1 of (e', st2) \<Rightarrow> Inr ((n, e'), st2)))
         else
           (case rd_Read (rd st) (src st) (buf st) of
              (n, e, p', s') \<Rightarrow>
                let st1 = st\<lparr>buf := copy (buf st) p', r := 0, w := 0, err := e,
                             src := s', calls := Suc (calls st)\<rparr>
                in if n < 0 then Inl errNegativeRead
                   else if n = 0 then (case readErr st1 of (e', st2) \<Rightarrow> Inr ((0, e'), st2))
                   else Read_copy p (st1\<lparr>w := w st1 + n\<rparr>)))
      else Read_copy p st)"

subsection \<open>ReadElem and UnreadElem\<close>

text \<open>\<open>zero\<close> is the zero value of the element type (\<open>var zero T\<close>).\<close>

function ReadElem ::
  "'a \<Rightarrow> ('a, 's, 'k) machine \<Rightarrow> panic + (('a \<times> error option) \<times> ('a, 's, 'k) machine)"
where
  "ReadElem zero st =
     (if r st = w st then
        (if err st \<noteq> None then (case readErr st of (e, st') \<Rightarrow> Inr ((zero, e), st'))
         else (case fill st of Inl x \<Rightarrow> Inl x | Inr st' \<Rightarrow> ReadElem zero st'))
      else if 0 \<le> r st \<and> r st < int (length (buf st)) then
        (let c = buf st ! nat (r st)
         in Inr ((c, None), st\<lparr>r := r st + 1, lastElem := Some (Cell c)\<rparr>))
      else Inl OutOfRange)"
  by pat_completeness auto

termination ReadElem
proof (relation "measure (\<lambda>(zero, st). if r st = w st \<and> err st = None then 1 else 0)",
    goal_cases)
  case 1
  show ?case by simp
next
  case (2 zero st st')
  then have f: "fill st = Inr st'" by simp
  from 2 have "Buffered st = 0" by (simp add: Buffered_def)
  with fill_progress(4) [OF f] have "err st' = None \<Longrightarrow> r st' \<noteq> w st'"
    by (auto simp: Buffered_def)
  with 2 show ?case by auto
qed

declare ReadElem.simps [simp del]

definition UnreadElem ::
  "('a, 's, 'k) machine \<Rightarrow> panic + (error option \<times> ('a, 's, 'k) machine)"
where
  "UnreadElem st =
     (case lastElem st of
        None \<Rightarrow> Inr (Some ErrInvalidUnreadElem, st)
      | Some q \<Rightarrow>
          if r st = 0 \<and> w st > 0 then Inr (Some ErrInvalidUnreadElem, st)
          else
            let st1 = (if r st > 0 then st\<lparr>r := r st - 1\<rparr> else st\<lparr>w := 1\<rparr>)
            in if 0 \<le> r st1 \<and> r st1 < int (length (buf st1))
               then Inr (None, st1\<lparr>buf := (buf st1)[nat (r st1) := deref st1 q],
                                   lastElem := None\<rparr>)
               else Inl OutOfRange)"

text \<open>The caller overwrites an element of one of its own slices.\<close>

definition poke :: "addr \<Rightarrow> nat \<Rightarrow> 'a \<Rightarrow> ('a, 's, 'k) machine \<Rightarrow> ('a, 's, 'k) machine" where
  "poke a i v st = st\<lparr>mem := (mem st)(a := (mem st a)[i := v])\<rparr>"

subsection \<open>WriteTo\<close>

definition writeBuf ::
  "('a, 's, 'k) WriteInterface \<Rightarrow> 'k \<Rightarrow> ('a, 's, 'k) machine \<Rightarrow>
   panic + ((int \<times> error option) \<times> ('a, 's, 'k) machine \<times> 'k)"
where
  "writeBuf wr k st =
     (case slice (buf st) (r st) (w st) of
        Inl x \<Rightarrow> Inl x
      | Inr xs \<Rightarrow>
          (case w_Write wr k xs of
             (n, e, k') \<Rightarrow>
               if n < 0 then Inl errNegativeWrite
               else Inr ((n, e), st\<lparr>r := r st + n\<rparr>, k')))"

text \<open>
  The last part of \<open>WriteTo\<close>: the loop \<open>for b.r < b.w\<close> and what follows it. The loop
  runs for as long as the source delivers, so it is a partial function: \<open>None\<close> is a
  call that does not return. \<open>n\<close> is the count accumulated so far (an \<open>int64\<close> in the
  code).
\<close>

partial_function (option) WriteTo_loop ::
  "('a, 's, 'k) WriteInterface \<Rightarrow> int \<Rightarrow> 'k \<Rightarrow> ('a, 's, 'k) machine \<Rightarrow>
   (panic + ((int \<times> error option) \<times> ('a, 's, 'k) machine \<times> 'k)) option"
where
  "WriteTo_loop wr n k st =
     (if r st < w st then
        (case writeBuf wr k st of
           Inl x \<Rightarrow> Some (Inl x)
         | Inr res \<Rightarrow>
             (case res of
                ((m, e), st1, k1) \<Rightarrow>
                  if e \<noteq> None then Some (Inr ((n + m, e), st1, k1))
                  else (case fill st1 of
                          Inl x \<Rightarrow> Some (Inl x)
                        | Inr st2 \<Rightarrow> WriteTo_loop wr (n + m) k1 st2)))
      else
        (case readErr (if err st = Some EOF then st\<lparr>err := None\<rparr> else st) of
           (e, st') \<Rightarrow> Some (Inr ((n, e), st', k))))"

definition WriteTo ::
  "('a, 's, 'k) WriteInterface \<Rightarrow> 'k \<Rightarrow> ('a, 's, 'k) machine \<Rightarrow>
   (panic + ((int \<times> error option) \<times> ('a, 's, 'k) machine \<times> 'k)) option"
where
  "WriteTo wr k st0 =
     (case writeBuf wr k (st0\<lparr>lastElem := None\<rparr>) of
        Inl x \<Rightarrow> Some (Inl x)
      | Inr res \<Rightarrow>
          (case res of
             ((n, e), st1, k1) \<Rightarrow>
               if e \<noteq> None then Some (Inr ((n, e), st1, k1))
               else
                 (case rd_WriteTo (rd st1) of
                    Some f \<Rightarrow>
                      (case f (src st1) k1 of
                         (m, e', s', k') \<Rightarrow> Some (Inr ((n + m, e'), st1\<lparr>src := s'\<rparr>, k')))
                  | None \<Rightarrow>
                      (case w_ReadFrom wr of
                         Some g \<Rightarrow>
                           (case g k1 (src st1) of
                              (m, e', k', s') \<Rightarrow>
                                Some (Inr ((n + m, e'), st1\<lparr>src := s'\<rparr>, k')))
                       | None \<Rightarrow>
                           (case (if w st1 - r st1 < int (length (buf st1))
                                  then fill st1 else Inr st1) of
                              Inl x \<Rightarrow> Some (Inl x)
                            | Inr st2 \<Rightarrow> WriteTo_loop wr n k1 st2)))))"

subsection \<open>Construction and Reset\<close>

text \<open>\<open>make([]T, n)\<close>: \<open>n\<close> zero values.\<close>

definition make :: "int \<Rightarrow> 'a \<Rightarrow> 'a list" where
  "make n zero = replicate (nat n) zero"

text \<open>\<open>*b = Reader[T]{buf: buf, rd: r}\<close>: every other field gets its zero value.\<close>

definition reset :: "'a list \<Rightarrow> 'i \<Rightarrow> ('a, 'i, 'z) Reader_scheme \<Rightarrow> ('a, 'i, 'z) Reader_scheme" where
  "reset bf x b = b\<lparr>buf := bf, rd := x, r := 0, w := 0, err := None, lastElem := None\<rparr>"

text \<open>
  The argument of \<open>Reset\<close> is an interface value: either the reader \<open>b\<close> itself (the
  test \<open>b == r\<close> compares identities) or another source, which comes with its state.
\<close>

datatype ('a, 's, 'k) Reset_arg = Itself | Another "('a, 's, 'k) ReadInterface" 's

definition Reset ::
  "'a \<Rightarrow> ('a, 's, 'k) Reset_arg \<Rightarrow> ('a, 's, 'k) machine \<Rightarrow> ('a, 's, 'k) machine"
where
  "Reset zero x st =
     (case x of
        Itself \<Rightarrow> st
      | Another x' s' \<Rightarrow>
          let st1 = (if buf st = [] then st\<lparr>buf := make defaultBufSize zero\<rparr> else st)
          in (reset (buf st1) x' st1)\<lparr>src := s'\<rparr>)"

text \<open>
  \<open>NewReaderSize\<close> asks whether its argument is already a \<open>*Reader[T]\<close> and may return
  that very pointer, so it is modelled over a heap of readers: an address is an index
  into the list, \<open>new(Reader[T])\<close> appends. An interface value is nil, a pointer to a
  reader, or a value of any other dynamic type; a pointer outside the heap is a nil
  \<open>*Reader[T]\<close>.
\<close>

datatype 'x iface = NilIface | ReaderPtr addr | Foreign 'x

definition NewReaderSize ::
  "'a \<Rightarrow> ('a, 'x iface) Reader list \<Rightarrow> 'x iface \<Rightarrow> int \<Rightarrow>
   panic + (addr \<times> ('a, 'x iface) Reader list)"
where
  "NewReaderSize zero h x sz =
     (let fresh =
        Inr (length h,
             h @ [reset (make (if sz < minReadBufferSize then minReadBufferSize else sz) zero) x
                    \<lparr>buf = [], rd = NilIface, r = 0, w = 0, err = None, lastElem = None\<rparr>])
      in case x of
           ReaderPtr a \<Rightarrow>
             if a \<ge> length h then Inl NilDeref
             else if int (length (buf (h ! a))) \<ge> sz then Inr (a, h)
             else fresh
         | _ \<Rightarrow> fresh)"

definition NewReader ::
  "'a \<Rightarrow> ('a, 'x iface) Reader list \<Rightarrow> 'x iface \<Rightarrow> panic + (addr \<times> ('a, 'x iface) Reader list)"
where
  "NewReader zero h x = NewReaderSize zero h x defaultBufSize"

text \<open>\<open>Size\<close> of the reader at an address of the heap.\<close>

definition SizeAt :: "('a, 'x iface) Reader list \<Rightarrow> addr \<Rightarrow> int" where
  "SizeAt h a = int (length (buf (h ! a)))"

text \<open>
  The reader \<open>NewReaderSize\<close> builds around a source that is not a reader, placed in a
  machine: the state of the source, the caller's memory, and no call made yet.
\<close>

definition new_machine ::
  "'a \<Rightarrow> ('a, 's, 'k) ReadInterface \<Rightarrow> 's \<Rightarrow> (addr \<Rightarrow> 'a list) \<Rightarrow> int \<Rightarrow> ('a, 's, 'k) machine"
where
  "new_machine zero x s m sz =
     reset (make (if sz < minReadBufferSize then minReadBufferSize else sz) zero) x
       \<lparr>buf = [], rd = x, r = 0, w = 0, err = None, lastElem = None,
        src = s, mem = m, calls = 0\<rparr>"

section \<open>Sources used as examples\<close>

text \<open>
  A scripted source answers each call with the next entry of its script (count, error,
  elements written), whatever slice it is given, and with \<open>(0, io.EOF)\<close> once the script
  is over.
\<close>

definition script_Read ::
  "(int \<times> error option \<times> 'a list) list \<Rightarrow> 'a list \<Rightarrow>
   int \<times> error option \<times> 'a list \<times> (int \<times> error option \<times> 'a list) list"
where
  "script_Read s p =
     (case s of [] \<Rightarrow> (0, Some EOF, [], []) | (n, e, d) # s' \<Rightarrow> (n, e, d, s'))"

definition script_source ::
  "('a, (int \<times> error option \<times> 'a list) list, 'k) ReadInterface"
where
  "script_source = \<lparr>rd_Read = script_Read, rd_WriteTo = None\<rparr>"

text \<open>A sink that accepts every slice whole and appends it to what it has collected.\<close>

definition collect_Write :: "'a list \<Rightarrow> 'a list \<Rightarrow> int \<times> error option \<times> 'a list" where
  "collect_Write k xs = (int (length xs), None, k @ xs)"

definition collect_sink :: "('a, 's, 'a list) WriteInterface" where
  "collect_sink = \<lparr>w_Write = collect_Write, w_ReadFrom = None\<rparr>"

section \<open>The retry bound of fill\<close>

text \<open>
  \<open>zero_reads x k s p\<close>: the source \<open>x\<close> in state \<open>s\<close> answers \<open>(0, nil)\<close> to each of
  its next \<open>k\<close> calls on the slice \<open>p\<close>; \<open>src_after x k s p\<close> is its state after them.
\<close>

fun zero_reads :: "('a, 's, 'k) ReadInterface \<Rightarrow> nat \<Rightarrow> 's \<Rightarrow> 'a list \<Rightarrow> bool" where
  "zero_reads x 0 s p = True"
| "zero_reads x (Suc k) s p =
     (case rd_Read x s p of
        (n, e, p', s') \<Rightarrow> n = 0 \<and> e = None \<and> zero_reads x k s' (copy p p'))"

fun src_after :: "('a, 's, 'k) ReadInterface \<Rightarrow> nat \<Rightarrow> 's \<Rightarrow> 'a list \<Rightarrow> 's" where
  "src_after x 0 s p = s"
| "src_after x (Suc k) s p =
     (case rd_Read x s p of (n, e, p', s') \<Rightarrow> src_after x k s' (copy p p'))"

text \<open>
  A reader of capacity 16 over a source that answers \<open>(0, nil)\<close> a hundred times and
  \<open>(0, io.EOF)\<close> on the call after those.
\<close>

definition stalled :: "(int, (int \<times> error option \<times> int list) list, int list) machine" where
  "stalled = new_machine 0 script_source (replicate 100 (0, None, []) @ [(0, Some EOF, [])])
               (\<lambda>a. []) 16"

lemma fill_loop_zero_reads:
  "zero_reads (rd st) k (src st) (drop (nat (w st)) (buf st)) \<Longrightarrow>
   0 \<le> w st \<Longrightarrow> w st \<le> int (length (buf st)) \<Longrightarrow>
   \<exists>st'. fill_loop k st = Inr st' \<and> err st' = Some ErrNoProgress \<and>
         calls st' = calls st + k \<and> r st' = r st \<and> w st' = w st \<and>
         src st' = src_after (rd st) k (src st) (drop (nat (w st)) (buf st))"
proof (induction k arbitrary: st)
  case 0
  then show ?case by simp
next
  case (Suc k)
  let ?p = "drop (nat (w st)) (buf st)"
  have sl: "slice (buf st) (w st) (int (length (buf st))) = Inr ?p"
    using Suc.prems by (simp add: slice_def)
  obtain n e p' s' where c: "rd_Read (rd st) (src st) ?p = (n, e, p', s')"
    by (cases "rd_Read (rd st) (src st) ?p") auto
  with Suc.prems(1) have z: "n = 0" "e = None" "zero_reads (rd st) k s' (copy ?p p')"
    by simp_all
  define st1 where "st1 = st\<lparr>buf := take (nat (w st)) (buf st) @ copy ?p p',
                             w := w st + n, src := s', calls := Suc (calls st)\<rparr>"
  have d: "drop (nat (w st1)) (buf st1) = copy ?p p'"
    using Suc.prems z by (simp add: st1_def)
  have "zero_reads (rd st1) k (src st1) (drop (nat (w st1)) (buf st1))"
    using z d by (simp add: st1_def)
  moreover have "0 \<le> w st1" "w st1 \<le> int (length (buf st1))"
    using Suc.prems z by (simp_all add: st1_def)
  ultimately obtain st' where res: "fill_loop k st1 = Inr st'" "err st' = Some ErrNoProgress"
      "calls st' = calls st1 + k" "r st' = r st1" "w st' = w st1"
      "src st' = src_after (rd st1) k (src st1) (drop (nat (w st1)) (buf st1))"
    using Suc.IH [of st1] by blast
  have "fill_loop (Suc k) st = fill_loop k st1"
    using sl c z by (simp add: st1_def)
  moreover have "src_after (rd st) (Suc k) (src st) ?p = src_after (rd st1) k (src st1) (copy ?p p')"
    using c by (simp add: st1_def)
  ultimately show ?case using res z d by (simp add: st1_def)
qed

lemma zero_reads_script:
  "zero_reads script_source k (replicate k (0, None, []) @ s) p"
  by (induction k arbitrary: p) (simp_all add: script_source_def script_Read_def)

lemma src_after_script:
  "src_after script_source k (replicate k (0, None, []) @ s) p = s"
  by (induction k arbitrary: p) (simp_all add: script_source_def script_Read_def)

text \<open>
  C1. When the source answers \<open>(0, nil)\<close> to each of the 100 attempts of one \<open>fill\<close>
  (the slide done and room left in the buffer), \<open>fill\<close> returns with
  \<open>io.ErrNoProgress\<close> pending, has called the source exactly 100 times, and leaves the
  source in its state after those 100 calls: whatever the source would answer to a
  further call, \<open>io.EOF\<close> included, is never asked for.
\<close>

theorem fill_NoProgress_after_100:
  assumes "slide st = Inr st1"
    and "0 \<le> w st1" and "w st1 < int (length (buf st1))"
    and "zero_reads (rd st1) 100 (src st1) (drop (nat (w st1)) (buf st1))"
  shows "\<exists>st'. fill st = Inr st' \<and> err st' = Some ErrNoProgress \<and>
           calls st' = calls st + 100 \<and>
           src st' = src_after (rd st1) 100 (src st1) (drop (nat (w st1)) (buf st1))"
proof -
  have c: "calls st1 = calls st"
    using assms(1) by (auto simp: slide_def split: if_splits sum.splits)
  from fill_loop_zero_reads [of st1 100] assms
  obtain st' where "fill_loop 100 st1 = Inr st'" "err st' = Some ErrNoProgress"
      "calls st' = calls st1 + 100"
      "src st' = src_after (rd st1) 100 (src st1) (drop (nat (w st1)) (buf st1))"
    by auto
  then show ?thesis using assms c by (simp add: fill_def maxConsecutiveEmptyReads_def)
qed

theorem fill_NoProgress_after_100_witness:
  "\<exists>st'. fill stalled = Inr st' \<and> err st' = Some ErrNoProgress \<and> calls st' = 100 \<and>
         rd_Read (rd stalled) (src st') [] = (0, Some EOF, [], [])"
proof -
  have b: "buf stalled = replicate 16 0" "r stalled = 0" "w stalled = 0" "calls stalled = 0"
      "rd stalled = script_source"
      "src stalled = replicate 100 (0, None, []) @ [(0, Some EOF, [])]"
    by (simp_all add: stalled_def new_machine_def reset_def make_def minReadBufferSize_def)
  have h1: "slide stalled = Inr stalled" using b by (simp add: slide_def)
  have h2: "0 \<le> w stalled" and h3: "w stalled < int (length (buf stalled))"
    using b by simp_all
  have h4: "zero_reads (rd stalled) 100 (src stalled) (drop (nat (w stalled)) (buf stalled))"
    using zero_reads_script [of 100] b by simp
  have a: "src_after (rd stalled) 100 (src stalled) (drop (nat (w stalled)) (buf stalled))
             = [(0, Some EOF, [])]"
    using src_after_script [of 100] b by simp
  from fill_NoProgress_after_100 [OF h1 h2 h3 h4] a b show ?thesis
    by (auto simp: script_source_def script_Read_def)
qed

section \<open>UnreadElem\<close>

text \<open>
  A reader of capacity 16 that has read \<open>5\<close> with \<open>ReadElem\<close> and still holds \<open>6\<close>;
  its source is at its end, and every slice of the caller has length 4.
\<close>

definition one_read :: "(int, (int \<times> error option \<times> int list) list, int list) machine" where
  "one_read =
     \<lparr>buf = [5, 6] @ replicate 14 0, rd = script_source, r = 1, w = 2, err = None,
      lastElem = Some (Cell 5), src = [], mem = (\<lambda>a. replicate 4 0), calls = 1\<rparr>"

text \<open>
  A \<open>ReadElem\<close> that returns an element with a nil error took it from the buffer at
  \<open>r\<close>, in the state \<open>sk\<close> its fills had led to.
\<close>

lemma ReadElem_success:
  "ReadElem zero st = Inr ((x, None), st1) \<Longrightarrow>
   \<exists>sk. r sk \<noteq> w sk \<and> 0 \<le> r sk \<and> r sk < int (length (buf sk)) \<and> x = buf sk ! nat (r sk) \<and>
        st1 = sk\<lparr>r := r sk + 1, lastElem := Some (Cell x)\<rparr>"
proof (induction zero st rule: ReadElem.induct)
  case (1 zero st)
  show ?case
  proof (cases "r st = w st")
    case True
    note rw = this
    show ?thesis
    proof (cases "err st = None")
      case True
      with rw 1 show ?thesis
        by (cases "fill st") (simp_all add: ReadElem.simps [of zero st])
    next
      case False
      with rw 1 show ?thesis
        by (simp add: ReadElem.simps [of zero st] readErr_def)
    qed
  next
    case False
    with "1.prems" have "0 \<le> r st \<and> r st < int (length (buf st))"
      by (simp add: ReadElem.simps [of zero st] split: if_splits)
    with False "1.prems" show ?thesis
      by (intro exI [of _ st]) (auto simp add: ReadElem.simps [of zero st] Let_def)
  qed
qed

text \<open>
  C2. \<open>UnreadElem\<close> returns \<open>ErrInvalidUnreadElem\<close> exactly when \<open>lastElem\<close> is nil or
  \<open>r = 0\<close> and \<open>w > 0\<close>, and then changes nothing. Otherwise, on a reader whose
  cursors are in range, it writes the remembered element at \<open>r - 1\<close> and steps \<open>r\<close>
  back when \<open>r > 0\<close>, else sets \<open>w = 1\<close> and writes slot 0; it clears \<open>lastElem\<close>.
  After a \<open>ReadElem\<close> that returned \<open>x\<close>, \<open>UnreadElem\<close> succeeds, the next
  \<open>ReadElem\<close> returns \<open>x\<close> again, and a second \<open>UnreadElem\<close> in a row fails with
  \<open>ErrInvalidUnreadElem\<close>.
\<close>

theorem UnreadElem_contract:
  "((\<exists>st'. UnreadElem st = Inr (Some ErrInvalidUnreadElem, st')) \<longleftrightarrow>
      (lastElem st = None \<or> (r st = 0 \<and> w st > 0)))
   \<and> (UnreadElem st = Inr (Some ErrInvalidUnreadElem, st) \<longleftrightarrow>
        (lastElem st = None \<or> (r st = 0 \<and> w st > 0)))
   \<and> (lastElem st = Some q \<longrightarrow> \<not> (r st = 0 \<and> w st > 0) \<longrightarrow>
        0 \<le> r st \<longrightarrow> r st \<le> w st \<longrightarrow> w st \<le> int (length (buf st)) \<longrightarrow> buf st \<noteq> [] \<longrightarrow>
        UnreadElem st =
          Inr (None,
               if r st > 0
               then st\<lparr>r := r st - 1, buf := (buf st)[nat (r st - 1) := deref st q],
                       lastElem := None\<rparr>
               else st\<lparr>w := 1, buf := (buf st)[0 := deref st q], lastElem := None\<rparr>))
   \<and> (ReadElem zero st = Inr ((x, None), st1) \<longrightarrow>
        (\<exists>st2 st3. UnreadElem st1 = Inr (None, st2) \<and>
                   ReadElem zero st2 = Inr ((x, None), st3) \<and>
                   UnreadElem st2 = Inr (Some ErrInvalidUnreadElem, st2)))"
proof (intro conjI impI)
  show "(\<exists>st'. UnreadElem st = Inr (Some ErrInvalidUnreadElem, st')) \<longleftrightarrow>
      (lastElem st = None \<or> (r st = 0 \<and> w st > 0))"
    by (auto simp: UnreadElem_def Let_def split: option.splits if_splits)
next
  show "UnreadElem st = Inr (Some ErrInvalidUnreadElem, st) \<longleftrightarrow>
        (lastElem st = None \<or> (r st = 0 \<and> w st > 0))"
    by (auto simp: UnreadElem_def Let_def split: option.splits if_splits)
next
  assume "lastElem st = Some q" "\<not> (r st = 0 \<and> w st > 0)" "0 \<le> r st" "r st \<le> w st"
    "w st \<le> int (length (buf st))" "buf st \<noteq> []"
  then show "UnreadElem st =
          Inr (None,
               if r st > 0
               then st\<lparr>r := r st - 1, buf := (buf st)[nat (r st - 1) := deref st q],
                       lastElem := None\<rparr>
               else st\<lparr>w := 1, buf := (buf st)[0 := deref st q], lastElem := None\<rparr>)"
    by (auto simp: UnreadElem_def Let_def deref_def split: ptr.splits)
next
  assume "ReadElem zero st = Inr ((x, None), st1)"
  from ReadElem_success [OF this] obtain sk where
    sk: "r sk \<noteq> w sk" "0 \<le> r sk" "r sk < int (length (buf sk))" "x = buf sk ! nat (r sk)"
      "st1 = sk\<lparr>r := r sk + 1, lastElem := Some (Cell x)\<rparr>"
    by blast
  define st2 where "st2 = sk\<lparr>lastElem := None\<rparr>"
  have u: "UnreadElem st1 = Inr (None, st2)"
    using sk by (simp add: UnreadElem_def Let_def deref_def st2_def)
  have "ReadElem zero st2 = Inr ((x, None), st2\<lparr>r := r st2 + 1, lastElem := Some (Cell x)\<rparr>)"
    using sk by (simp add: ReadElem.simps st2_def Let_def)
  moreover have "UnreadElem st2 = Inr (Some ErrInvalidUnreadElem, st2)"
    by (simp add: UnreadElem_def st2_def)
  ultimately show "\<exists>st2 st3. UnreadElem st1 = Inr (None, st2) \<and>
                   ReadElem zero st2 = Inr ((x, None), st3) \<and>
                   UnreadElem st2 = Inr (Some ErrInvalidUnreadElem, st2)"
    using u by blast
qed


theorem UnreadElem_contract_witness:
  "UnreadElem one_read = Inr (None, one_read\<lparr>r := 0, lastElem := None\<rparr>)
   \<and> ReadElem 0 one_read = Inr ((6, None), one_read\<lparr>r := 2, lastElem := Some (Cell 6)\<rparr>)
   \<and> (\<exists>st2 st3. UnreadElem (one_read\<lparr>r := 2, lastElem := Some (Cell 6)\<rparr>) = Inr (None, st2) \<and>
                   ReadElem 0 st2 = Inr ((6, None), st3) \<and>
                   UnreadElem st2 = Inr (Some ErrInvalidUnreadElem, st2))"
proof -
  have h: "lastElem one_read = Some (Cell 5)" "\<not> (r one_read = 0 \<and> w one_read > 0)"
      "0 \<le> r one_read" "r one_read \<le> w one_read" "w one_read \<le> int (length (buf one_read))"
      "buf one_read \<noteq> []"
    by (simp_all add: one_read_def)
  have g: "ReadElem 0 one_read = Inr ((6, None), one_read\<lparr>r := 2, lastElem := Some (Cell 6)\<rparr>)"
    by (simp add: ReadElem.simps one_read_def)
  from UnreadElem_contract [of one_read "Cell 5" 0 6 "one_read\<lparr>r := 2, lastElem := Some (Cell 6)\<rparr>"]
    h g show ?thesis
    by (simp add: one_read_def deref_def)
qed

section \<open>What lastElem points at\<close>

text \<open>
  A reader of capacity 16 over a source that delivers the single element \<open>7\<close>; every
  slice of the caller has length 16, so a \<open>Read\<close> into one takes the direct path.
  \<open>big_dest_read\<close> is the state that \<open>Read\<close> leaves.
\<close>

definition big_dest :: "(int, (int \<times> error option \<times> int list) list, int list) machine" where
  "big_dest = new_machine 0 script_source [(1, None, [7])] (\<lambda>a. replicate 16 0) 16"

definition big_dest_read :: "(int, (int \<times> error option \<times> int list) list, int list) machine" where
  "big_dest_read =
     \<lparr>buf = replicate 16 0, rd = script_source, r = 0, w = 0, err = None,
      lastElem = Some (InDest 0 0), src = [],
      mem = (\<lambda>a. replicate 16 0)(0 := 7 # replicate 15 0), calls = 1\<rparr>"

lemma Read_big_dest: "Read 0 big_dest = Inr ((1, None), big_dest_read)"
  by (simp add: Read_def big_dest_def big_dest_read_def new_machine_def reset_def make_def
      minReadBufferSize_def script_source_def script_Read_def readErr_def copy_def Buffered_def
      numeral_eq_Suc)

lemma Unread_big_dest:
  "UnreadElem (poke 0 0 v big_dest_read) =
     Inr (None, (poke 0 0 v big_dest_read)\<lparr>w := 1, buf := v # replicate 15 0, lastElem := None\<rparr>)"
  by (simp add: UnreadElem_def poke_def big_dest_read_def deref_def numeral_eq_Suc)

lemma ReadElem_big_dest:
  "ReadElem 0 ((poke 0 0 v big_dest_read)\<lparr>w := 1, buf := v # replicate 15 0, lastElem := None\<rparr>) =
     Inr ((v, None), (poke 0 0 v big_dest_read)
            \<lparr>w := 1, buf := v # replicate 15 0, r := 1, lastElem := Some (Cell v)\<rparr>)"
  by (simp add: ReadElem.simps poke_def big_dest_read_def)

text \<open>
  C3. On its direct path \<open>Read\<close> stores \<open>&p[n-1]\<close>, an address inside the caller's
  slice, not a copy. \<open>Read\<close> returns one element, \<open>7\<close>, in \<open>p[0]\<close>; the caller then
  overwrites \<open>p[0]\<close> with \<open>9\<close>; \<open>UnreadElem\<close> succeeds and the next \<open>ReadElem\<close>
  returns \<open>9\<close>, not the \<open>7\<close> that was returned.
\<close>

theorem Read_lastElem_aliases_dest:
  "\<exists>st1 st2 st3.
     Read 0 big_dest = Inr ((1, None), st1) \<and> mem st1 0 ! 0 = 7 \<and>
     lastElem st1 = Some (InDest 0 0) \<and>
     UnreadElem (poke 0 0 9 st1) = Inr (None, st2) \<and>
     ReadElem 0 st2 = Inr ((9, None), st3)"
proof -
  have "mem big_dest_read 0 ! 0 = 7" "lastElem big_dest_read = Some (InDest 0 0)"
    by (simp_all add: big_dest_read_def)
  with Read_big_dest Unread_big_dest [of 9] ReadElem_big_dest [of 9] show ?thesis
    by blast
qed

section \<open>When lastElem is set and when it is cleared\<close>

text \<open>
  \<open>fill\<close> and the loops built on it leave \<open>lastElem\<close>, the source's methods and the
  caller's memory as they are.
\<close>

lemma fill_loop_frame:
  "fill_loop i st = Inr st' \<Longrightarrow>
     lastElem st' = lastElem st \<and> rd st' = rd st \<and> mem st' = mem st"
proof (induction i arbitrary: st)
  case 0
  then show ?case by auto
next
  case (Suc i)
  from Suc.prems obtain p where p: "slice (buf st) (w st) (int (length (buf st))) = Inr p"
    by (auto split: sum.splits)
  obtain n e p' s' where c: "rd_Read (rd st) (src st) p = (n, e, p', s')"
    by (cases "rd_Read (rd st) (src st) p") auto
  define st1 where "st1 = st\<lparr>buf := take (nat (w st)) (buf st) @ copy p p',
                             w := w st + n, src := s', calls := Suc (calls st)\<rparr>"
  have n0: "0 \<le> n" using Suc.prems p c by (auto split: if_splits)
  show ?case
  proof (cases "e \<noteq> None")
    case True
    then have "st' = st1\<lparr>err := e\<rparr>" using Suc.prems p c n0 by (simp add: st1_def Let_def)
    then show ?thesis by (simp add: st1_def)
  next
    case False
    note eN = this
    show ?thesis
    proof (cases "n > 0")
      case True
      then have "st' = st1" using Suc.prems p c eN by (simp add: st1_def Let_def)
      then show ?thesis by (simp add: st1_def)
    next
      case False
      then have "fill_loop i st1 = Inr st'" using Suc.prems p c eN n0 by (simp add: st1_def Let_def)
      from Suc.IH [OF this] show ?thesis by (simp add: st1_def)
    qed
  qed
qed

lemma slide_frame:
  "slide st = Inr st' \<Longrightarrow>
     lastElem st' = lastElem st \<and> rd st' = rd st \<and> mem st' = mem st \<and>
     src st' = src st \<and> calls st' = calls st \<and> err st' = err st"
  by (auto simp: slide_def split: if_splits sum.splits)

lemma fill_frame:
  assumes "fill st = Inr st'"
  shows "lastElem st' = lastElem st \<and> rd st' = rd st \<and> mem st' = mem st"
proof -
  from assms obtain st1 where s1: "slide st = Inr st1"
    and fl: "fill_loop maxConsecutiveEmptyReads st1 = Inr st'"
    by (cases "slide st") (simp_all add: fill_def split: if_splits)
  from slide_frame [OF s1] fill_loop_frame [OF fl] show ?thesis by simp
qed

lemma Peek_loop_frame:
  "Peek_loop n st = Inr st' \<Longrightarrow>
     lastElem st' = lastElem st \<and> rd st' = rd st \<and> mem st' = mem st"
proof (induction n st rule: Peek_loop.induct)
  case (1 n st)
  show ?case
  proof (cases "w st - r st < n \<and> w st - r st < int (length (buf st)) \<and> err st = None")
    case True
    with "1.prems" obtain b where b: "fill st = Inr b" "Peek_loop n b = Inr st'"
      by (cases "fill st") (simp_all add: Peek_loop.simps [of n st])
    from "1.IH" [OF True b] fill_frame [OF b(1)] show ?thesis by simp
  next
    case False
    with "1.prems" show ?thesis by (simp add: Peek_loop.simps [of n st])
  qed
qed

lemma Discard_loop_frame:
  "Discard_loop n remain st = Inr (res, st') \<Longrightarrow>
     lastElem st' = lastElem st \<and> rd st' = rd st \<and> mem st' = mem st"
proof (induction n remain st rule: Discard_loop.induct)
  case (1 n remain st)
  from "1.prems" obtain b where b: "(if Buffered st = 0 then fill st else Inr st) = Inr b"
    by (cases "if Buffered st = 0 then fill st else Inr st")
       (simp_all add: Discard_loop.simps [of n remain st])
  then have fb: "lastElem b = lastElem st \<and> rd b = rd st \<and> mem b = mem st"
    by (auto split: if_splits dest: fill_frame)
  define skip where "skip = (if remain < Buffered b then remain else Buffered b)"
  define st2 where "st2 = b\<lparr>r := r b + skip\<rparr>"
  define remain' where "remain' = remain - skip"
  have eq: "Discard_loop n remain st =
      (if remain' = 0 then Inr ((n, None), st2)
       else if err st2 \<noteq> None
         then (case readErr st2 of (e, st3) \<Rightarrow> Inr ((n - remain', e), st3))
         else Discard_loop n remain' st2)"
    using b by (simp add: Discard_loop.simps [of n remain st] Let_def skip_def st2_def remain'_def)
  show ?case
  proof (cases "remain' = 0")
    case True
    with eq "1.prems" have "st' = st2" by simp
    with fb show ?thesis by (simp add: st2_def)
  next
    case False
    note r0 = this
    show ?thesis
    proof (cases "err st2 = None")
      case True
      with eq "1.prems" r0 have "Discard_loop n remain' st2 = Inr (res, st')" by simp
      from "1.IH" [OF b skip_def st2_def remain'_def r0 _ this] True fb show ?thesis
        by (simp add: st2_def)
    next
      case False
      with eq "1.prems" r0 have "st' = st2\<lparr>err := None\<rparr>" by (simp add: readErr_def)
      with fb show ?thesis by (simp add: st2_def)
    qed
  qed
qed

lemma writeBuf_frame:
  "writeBuf wr k st = Inr (res, st', k') \<Longrightarrow>
     lastElem st' = lastElem st \<and> rd st' = rd st \<and> mem st' = mem st"
proof -
  assume a: "writeBuf wr k st = Inr (res, st', k')"
  then obtain xs where xs: "slice (buf st) (r st) (w st) = Inr xs"
    by (cases "slice (buf st) (r st) (w st)") (simp_all add: writeBuf_def)
  obtain n e k1 where c: "w_Write wr k xs = (n, e, k1)" by (cases "w_Write wr k xs") auto
  from a xs c have "st' = st\<lparr>r := r st + n\<rparr>"
    by (simp add: writeBuf_def split: if_splits)
  then show ?thesis by simp
qed

lemma WriteTo_loop_frame_aux:
  assumes "WriteTo_loop wr n k st = Some y"
  shows "\<forall>res st' k'. y = Inr (res, st', k') \<longrightarrow>
        lastElem st' = lastElem st \<and> rd st' = rd st \<and> mem st' = mem st"
proof (rule WriteTo_loop.raw_induct
    [where P = "\<lambda>wr n k st y. \<forall>res st' k'. y = Inr (res, st', k') \<longrightarrow>
        lastElem st' = lastElem st \<and> rd st' = rd st \<and> mem st' = mem st", OF _ assms],
    goal_cases)
  case (1 f wr n k st y)
  note IH = 1(1) and eq = 1(2)
  show ?case
  proof (cases "r st < w st")
    case True
    note lt = this
    show ?thesis
    proof (cases "writeBuf wr k st")
      case (Inl x)
      with eq lt have "y = Inl x" by simp
      then show ?thesis by simp
    next
      case (Inr res1)
      obtain m e st1 k1 where res1: "res1 = ((m, e), st1, k1)" by (cases res1) auto
      note wb = Inr [unfolded res1]
      note f1 = writeBuf_frame [OF wb]
      show ?thesis
      proof (cases "e \<noteq> None")
        case True
        with eq wb lt have "y = Inr ((n + m, e), st1, k1)" by simp
        with f1 show ?thesis by simp
      next
        case False
        note eN = this
        show ?thesis
        proof (cases "fill st1")
          case (Inl x)
          with eq wb lt eN have "y = Inl x" by simp
          then show ?thesis by simp
        next
          case (Inr st2)
          with eq wb lt eN have "f wr (n + m) k1 st2 = Some y" by simp
          from IH [OF this] fill_frame [OF Inr] f1 show ?thesis by simp
        qed
      qed
    qed
  next
    case False
    with eq have "y = Inr ((n, if err st = Some EOF then None else err st), st\<lparr>err := None\<rparr>, k)"
      by (cases "err st = Some EOF") (simp_all add: readErr_def)
    then show ?thesis by simp
  qed
qed

lemma WriteTo_loop_frame:
  assumes "WriteTo_loop wr n k st = Some (Inr (res, st', k'))"
  shows "lastElem st' = lastElem st \<and> rd st' = rd st \<and> mem st' = mem st"
  using WriteTo_loop_frame_aux [OF assms] by simp


lemma Read_copy_lastElem:
  assumes "Read_copy p st = Inr ((m, e), st')" and "r st < w st" and "mem st p \<noteq> []"
  shows "0 < m \<and> e = None \<and> lastElem st' \<noteq> None"
proof -
  from assms(1) obtain xs where xs: "slice (buf st) (r st) (w st) = Inr xs"
    by (cases "slice (buf st) (r st) (w st)") (simp_all add: Read_copy_def)
  with assms(2) have "xs \<noteq> []" by (auto simp: slice_def split: if_splits)
  with assms(1,3) xs show ?thesis
    by (auto simp: Read_copy_def Let_def split: if_splits)
qed

lemma Read_lastElem:
  assumes "Read p st = Inr ((m, e), st')"
  shows "(0 < m \<longrightarrow> lastElem st' \<noteq> None) \<and> (m = 0 \<longrightarrow> lastElem st' = lastElem st)"
proof (cases "length (mem st p) = 0")
  case True
  with assms show ?thesis by (auto simp: Read_def readErr_def split: if_splits)
next
  case False
  note ne = this
  show ?thesis
  proof (cases "r st = w st")
    case False
    with ne assms have rc: "Read_copy p st = Inr ((m, e), st')" by (simp add: Read_def)
    from rc have "r st \<le> w st"
      by (cases "slice (buf st) (r st) (w st)") (auto simp: Read_copy_def slice_def split: if_splits)
    with False have "r st < w st" by simp
    from Read_copy_lastElem [OF rc this] ne show ?thesis by simp
  next
    case True
    note rw = this
    show ?thesis
    proof (cases "err st \<noteq> None")
      case True
      with rw ne assms show ?thesis by (auto simp: Read_def readErr_def)
    next
      case False
      note eN = this
      show ?thesis
      proof (cases "length (mem st p) \<ge> length (buf st)")
        case True
        obtain n e1 p' s' where c: "rd_Read (rd st) (src st) (mem st p) = (n, e1, p', s')"
          by (cases "rd_Read (rd st) (src st) (mem st p)") auto
        from assms rw ne eN True c show ?thesis
          by (auto simp: Read_def readErr_def Let_def split: if_splits)
      next
        case False
        obtain n e1 p' s' where c: "rd_Read (rd st) (src st) (buf st) = (n, e1, p', s')"
          by (cases "rd_Read (rd st) (src st) (buf st)") auto
        define st1 where "st1 = st\<lparr>buf := copy (buf st) p', r := 0, w := 0, err := e1,
                             src := s', calls := Suc (calls st)\<rparr>"
        show ?thesis
        proof (cases "n = 0")
          case True
          with assms rw ne eN False c show ?thesis
            by (auto simp add: Read_def readErr_def Let_def)
        next
          case False
          with assms rw ne eN \<open>\<not> length (buf st) \<le> length (mem st p)\<close> c
          have n0: "0 < n" and rc: "Read_copy p (st1\<lparr>w := w st1 + n\<rparr>) = Inr ((m, e), st')"
            by (simp_all add: Read_def Let_def st1_def split: if_splits)
          have "r (st1\<lparr>w := w st1 + n\<rparr>) < w (st1\<lparr>w := w st1 + n\<rparr>)"
            using n0 by (simp add: st1_def)
          moreover have "mem (st1\<lparr>w := w st1 + n\<rparr>) p \<noteq> []" using ne by (simp add: st1_def)
          ultimately show ?thesis using Read_copy_lastElem [OF rc] by simp
        qed
      qed
    qed
  qed
qed

lemma ReadElem_lastElem:
  "ReadElem zero st = Inr ((x, e), st') \<Longrightarrow>
     (e = None \<longrightarrow> lastElem st' = Some (Cell x)) \<and> (e \<noteq> None \<longrightarrow> lastElem st' = lastElem st)"
proof (induction zero st rule: ReadElem.induct)
  case (1 zero st)
  show ?case
  proof (cases "r st = w st")
    case True
    note rw = this
    show ?thesis
    proof (cases "err st = None")
      case True
      with rw "1.prems" obtain b where b: "fill st = Inr b" "ReadElem zero b = Inr ((x, e), st')"
        by (cases "fill st") (simp_all add: ReadElem.simps [of zero st])
      from "1.IH" [OF rw _ b] True fill_frame [OF b(1)] show ?thesis by simp
    next
      case False
      with rw "1.prems" show ?thesis
        by (auto simp add: ReadElem.simps [of zero st] readErr_def)
    qed
  next
    case False
    with "1.prems" show ?thesis
      by (auto simp add: ReadElem.simps [of zero st] Let_def split: if_splits)
  qed
qed

lemma Peek_lastElem:
  assumes "Peek n st = Inr (res, st')" and "0 \<le> n"
  shows "lastElem st' = None"
proof -
  from assms obtain st1 where pl: "Peek_loop n (st\<lparr>lastElem := None\<rparr>) = Inr st1"
    by (cases "Peek_loop n (st\<lparr>lastElem := None\<rparr>)") (simp_all add: Peek_def)
  from Peek_loop_frame [OF pl] have l1: "lastElem st1 = None" by simp
  from assms pl have "st' = st1 \<or> st' = st1\<lparr>err := None\<rparr>"
    by (auto simp: Peek_def readErr_def split: if_splits sum.splits)
  with l1 show ?thesis by auto
qed

lemma Discard_lastElem:
  assumes "Discard n st = Inr (res, st')" and "0 < n"
  shows "lastElem st' = None"
proof -
  from assms have "Discard_loop n n (st\<lparr>lastElem := None\<rparr>) = Inr (res, st')"
    by (simp add: Discard_def)
  from Discard_loop_frame [OF this] show ?thesis by simp
qed

lemma WriteTo_lastElem:
  assumes "WriteTo wr k st = Some (Inr (res, st', k'))"
  shows "lastElem st' = None"
proof -
  from assms obtain n e st1 k1 where
    wb: "writeBuf wr k (st\<lparr>lastElem := None\<rparr>) = Inr ((n, e), st1, k1)"
    by (cases "writeBuf wr k (st\<lparr>lastElem := None\<rparr>)") (auto simp: WriteTo_def)
  from writeBuf_frame [OF wb] have l1: "lastElem st1 = None" by simp
  show ?thesis
  proof (cases "e \<noteq> None")
    case True
    with assms wb l1 show ?thesis by (simp add: WriteTo_def)
  next
    case False
    note eN = this
    show ?thesis
    proof (cases "rd_WriteTo (rd st1)")
      case (Some f)
      with assms wb eN l1 show ?thesis
        by (auto simp: WriteTo_def split: prod.splits)
    next
      case None
      note a = this
      show ?thesis
      proof (cases "w_ReadFrom wr")
        case (Some g)
        with assms wb eN l1 a show ?thesis
          by (auto simp: WriteTo_def split: prod.splits)
      next
        case None
        with assms wb eN a obtain st2 where
          s2: "(if w st1 - r st1 < int (length (buf st1)) then fill st1 else Inr st1) = Inr st2"
          and lp: "WriteTo_loop wr n k1 st2 = Some (Inr (res, st', k'))"
          by (cases "if w st1 - r st1 < int (length (buf st1)) then fill st1 else Inr st1")
             (simp_all add: WriteTo_def)
        from s2 l1 have "lastElem st2 = None" by (auto split: if_splits dest: fill_frame)
        with WriteTo_loop_frame [OF lp] show ?thesis by simp
      qed
    qed
  qed
qed



text \<open>One step of \<open>fill_loop\<close> at a numeral, for evaluating \<open>fill\<close> on examples.\<close>

lemma fill_loop_numeral:
  "fill_loop (numeral v) st =
     (case slice (buf st) (w st) (int (length (buf st))) of
        Inl x \<Rightarrow> Inl x
      | Inr p \<Rightarrow>
         (case rd_Read (rd st) (src st) p of
            (n, e, p', s') \<Rightarrow>
              if n < 0 then Inl errNegativeRead
              else
                let st1 = st\<lparr>buf := take (nat (w st)) (buf st) @ copy p p',
                             w := w st + n, src := s', calls := Suc (calls st)\<rparr>
                in if e \<noteq> None then Inr (st1\<lparr>err := e\<rparr>)
                   else if n > 0 then Inr st1
                   else fill_loop (pred_numeral v) st1))"
  unfolding numeral_eq_Suc by (rule fill_loop.simps(2))

lemma one_read_Read: "\<exists>st1. Read 0 one_read = Inr ((1, None), st1)"
  by (simp add: Read_def Read_copy_def one_read_def slice_def copy_def)

lemma one_read_ReadElem: "\<exists>st2. ReadElem 0 one_read = Inr ((6, None), st2)"
  by (simp add: ReadElem.simps one_read_def)

lemma one_read_Peek: "\<exists>st3. Peek 1 one_read = Inr (([6], None), st3)"
  by (simp add: Peek_def Peek_loop.simps one_read_def slice_def)

lemma one_read_Discard: "\<exists>st4. Discard 1 one_read = Inr ((1, None), st4)"
  by (simp add: Discard_def Discard_loop.simps one_read_def Buffered_def Let_def)

lemma one_read_UnreadElem: "\<exists>st6. UnreadElem one_read = Inr (None, st6)"
  by (simp add: UnreadElem_def one_read_def)

lemma one_read_fill: "\<exists>st7. fill one_read = Inr st7"
  by (simp add: one_read_def script_source_def script_Read_def fill_def slide_def slice_def
      maxConsecutiveEmptyReads_def fill_loop_numeral copy_def)

lemma one_read_WriteTo:
  "\<exists>st5. WriteTo collect_sink [] one_read = Some (Inr ((1, None), st5, [6]))"
  by (simp add: WriteTo_def WriteTo_loop.simps writeBuf_def one_read_def slice_def
      collect_sink_def collect_Write_def script_source_def script_Read_def fill_def slide_def
      maxConsecutiveEmptyReads_def fill_loop_numeral copy_def readErr_def)

text \<open>
  C4, as the code has it. A \<open>Read\<close> that returns at least one element and a \<open>ReadElem\<close>
  that returns an element leave \<open>lastElem\<close> set; a \<open>Read\<close> that returns no element and
  a \<open>ReadElem\<close> that returns an error leave it as it was. It is nil after every \<open>Peek\<close>
  with \<open>n \<ge> 0\<close>, every \<open>Discard\<close> with \<open>n > 0\<close>, every \<open>WriteTo\<close> and every successful
  \<open>UnreadElem\<close>. \<open>Discard(0)\<close>, and \<open>Discard\<close> and \<open>Peek\<close> with a negative count,
  change nothing at all, and \<open>fill\<close> itself does not touch \<open>lastElem\<close>.
\<close>

theorem lastElem_lifecycle:
  "(Read p st = Inr ((m, e1), st1) \<longrightarrow>
      (0 < m \<longrightarrow> lastElem st1 \<noteq> None) \<and> (m = 0 \<longrightarrow> lastElem st1 = lastElem st))
   \<and> (ReadElem zero st = Inr ((x, e2), st2) \<longrightarrow>
      (e2 = None \<longrightarrow> lastElem st2 = Some (Cell x)) \<and>
      (e2 \<noteq> None \<longrightarrow> lastElem st2 = lastElem st))
   \<and> (0 \<le> n1 \<longrightarrow> Peek n1 st = Inr (res3, st3) \<longrightarrow> lastElem st3 = None)
   \<and> (0 < n2 \<longrightarrow> Discard n2 st = Inr (res4, st4) \<longrightarrow> lastElem st4 = None)
   \<and> (WriteTo wr k st = Some (Inr (res5, st5, k5)) \<longrightarrow> lastElem st5 = None)
   \<and> (UnreadElem st = Inr (None, st6) \<longrightarrow> lastElem st6 = None)
   \<and> Discard 0 st = Inr ((0, None), st)
   \<and> (n3 < 0 \<longrightarrow> Discard n3 st = Inr ((0, Some ErrNegativeCount), st) \<and>
                  Peek n3 st = Inr (([], Some ErrNegativeCount), st))
   \<and> (fill st = Inr st7 \<longrightarrow> lastElem st7 = lastElem st)"
proof -
  have c1: "Read p st = Inr ((m, e1), st1) \<longrightarrow>
      (0 < m \<longrightarrow> lastElem st1 \<noteq> None) \<and> (m = 0 \<longrightarrow> lastElem st1 = lastElem st)"
    by (rule impI) (rule Read_lastElem)
  have c2: "ReadElem zero st = Inr ((x, e2), st2) \<longrightarrow>
      (e2 = None \<longrightarrow> lastElem st2 = Some (Cell x)) \<and>
      (e2 \<noteq> None \<longrightarrow> lastElem st2 = lastElem st)"
    by (rule impI) (rule ReadElem_lastElem)
  have c3: "0 \<le> n1 \<longrightarrow> Peek n1 st = Inr (res3, st3) \<longrightarrow> lastElem st3 = None"
    using Peek_lastElem [of n1 st res3 st3] by simp
  have c4: "0 < n2 \<longrightarrow> Discard n2 st = Inr (res4, st4) \<longrightarrow> lastElem st4 = None"
    using Discard_lastElem [of n2 st res4 st4] by simp
  have c5: "WriteTo wr k st = Some (Inr (res5, st5, k5)) \<longrightarrow> lastElem st5 = None"
    by (rule impI) (rule WriteTo_lastElem)
  have c6: "UnreadElem st = Inr (None, st6) \<longrightarrow> lastElem st6 = None"
  proof
    assume u: "UnreadElem st = Inr (None, st6)"
    then obtain q where q: "lastElem st = Some q" by (cases "lastElem st") (simp_all add: UnreadElem_def)
    with u show "lastElem st6 = None"
      by (cases "r st > 0") (auto simp: UnreadElem_def Let_def split: if_splits)
  qed
  have c7: "Discard 0 st = Inr ((0, None), st)" by (simp add: Discard_def)
  have c8: "n3 < 0 \<longrightarrow> Discard n3 st = Inr ((0, Some ErrNegativeCount), st) \<and>
                  Peek n3 st = Inr (([], Some ErrNegativeCount), st)"
    by (simp add: Discard_def Peek_def)
  have c9: "fill st = Inr st7 \<longrightarrow> lastElem st7 = lastElem st"
    using fill_frame [of st st7] by simp
  show ?thesis by (intro conjI c1 c2 c3 c4 c5 c6 c7 c8 c9)
qed



theorem lastElem_lifecycle_witness:
  "(\<exists>st1. Read 0 one_read = Inr ((1, None), st1) \<and> lastElem st1 \<noteq> None)
   \<and> (\<exists>st2. ReadElem 0 one_read = Inr ((6, None), st2) \<and> lastElem st2 = Some (Cell 6))
   \<and> (\<exists>st3. Peek 1 one_read = Inr (([6], None), st3) \<and> lastElem st3 = None)
   \<and> (\<exists>st4. Discard 1 one_read = Inr ((1, None), st4) \<and> lastElem st4 = None)
   \<and> (\<exists>st5. WriteTo collect_sink [] one_read = Some (Inr ((1, None), st5, [6])) \<and>
              lastElem st5 = None)
   \<and> (\<exists>st6. UnreadElem one_read = Inr (None, st6) \<and> lastElem st6 = None)
   \<and> Discard (- 1) one_read = Inr ((0, Some ErrNegativeCount), one_read)
   \<and> Peek (- 1) one_read = Inr (([], Some ErrNegativeCount), one_read)
   \<and> (\<exists>st7. fill one_read = Inr st7 \<and> lastElem st7 = Some (Cell 5))"
proof -
  obtain st1 where a1: "Read 0 one_read = Inr ((1, None), st1)"
    using one_read_Read by blast
  obtain st2 where a2: "ReadElem 0 one_read = Inr ((6, None), st2)"
    using one_read_ReadElem by blast
  obtain st3 where a3: "Peek 1 one_read = Inr (([6], None), st3)"
    using one_read_Peek by blast
  obtain st4 where a4: "Discard 1 one_read = Inr ((1, None), st4)"
    using one_read_Discard by blast
  obtain st5 where a5: "WriteTo collect_sink [] one_read = Some (Inr ((1, None), st5, [6]))"
    using one_read_WriteTo by blast
  obtain st6 where a6: "UnreadElem one_read = Inr (None, st6)"
    using one_read_UnreadElem by blast
  obtain st7 where a7: "fill one_read = Inr st7"
    using one_read_fill by blast
  have l: "lastElem one_read = Some (Cell 5)" by (simp add: one_read_def)
  note t = lastElem_lifecycle [of 0 one_read 1 None st1 0 6 None st2 1 "([6], None)" st3
      1 "(1, None)" st4 collect_sink "[]" "(1, None)" st5 "[6]" st6 "- 1" st7]
  have "lastElem st1 \<noteq> None" using t a1 by simp
  moreover have "lastElem st2 = Some (Cell 6)" using t a2 by simp
  moreover have "lastElem st3 = None" using t a3 by simp
  moreover have "lastElem st4 = None" using t a4 by simp
  moreover have "lastElem st5 = None" using t a5 by simp
  moreover have "lastElem st6 = None" using t a6 by simp
  moreover have "Discard (- 1) one_read = Inr ((0, Some ErrNegativeCount), one_read)"
    and "Peek (- 1) one_read = Inr (([], Some ErrNegativeCount), one_read)"
    using t by simp_all
  moreover have "lastElem st7 = Some (Cell 5)" using t a7 l by simp
  ultimately show ?thesis using a1 a2 a3 a4 a5 a6 a7 by blast
qed

text \<open>
  \<open>Discard(0)\<close> returns before the line \<open>b.lastElem = nil\<close>: after it the remembered
  element is still there and \<open>UnreadElem\<close> still succeeds.
\<close>

theorem Discard_zero_keeps_lastElem:
  "Discard 0 one_read = Inr ((0, None), one_read) \<and> lastElem one_read = Some (Cell 5) \<and>
   UnreadElem one_read = Inr (None, one_read\<lparr>r := 0, lastElem := None\<rparr>)"
  by (simp add: Discard_def UnreadElem_def one_read_def deref_def)

section \<open>The cursor invariant\<close>

text \<open>
  The precondition on the capabilities: a source's \<open>Read\<close> and a sink's \<open>Write\<close>
  return a count between 0 and the length of the slice they were given.
\<close>

definition source_ok :: "('a, 's, 'k) ReadInterface \<Rightarrow> bool" where
  "source_ok x =
     (\<forall>s p. case rd_Read x s p of (n, e, p', s') \<Rightarrow> 0 \<le> n \<and> n \<le> int (length p))"

definition sink_ok :: "('a, 's, 'k) WriteInterface \<Rightarrow> bool" where
  "sink_ok wr =
     (\<forall>k xs. case w_Write wr k xs of (n, e, k') \<Rightarrow> 0 \<le> n \<and> n \<le> int (length xs))"

text \<open>
  The invariant that is carried along: the cursors are in range, the buffer is not empty
  (a constructed reader has at least \<open>minReadBufferSize\<close> elements) and the source keeps
  to its precondition.
\<close>

definition reader_inv :: "('a, 's, 'k) machine \<Rightarrow> bool" where
  "reader_inv st =
     (0 \<le> r st \<and> r st \<le> w st \<and> w st \<le> int (length (buf st)) \<and> buf st \<noteq> [] \<and>
      source_ok (rd st))"

text \<open>
  The states of a reader built by \<open>NewReaderSize\<close> after any sequence of public
  operations that return, with sources and sinks that keep to the precondition; the
  caller may also overwrite its own slices in between. \<open>Buffered\<close> and \<open>Size\<close> only
  read the state.
\<close>

inductive reachable :: "'a \<Rightarrow> ('a, 's, 'k) machine \<Rightarrow> bool" for zero :: 'a where
  fresh: "source_ok x \<Longrightarrow> reachable zero (new_machine zero x s m sz)"
| by_Read: "reachable zero st \<Longrightarrow> Read p st = Inr (res, st') \<Longrightarrow> reachable zero st'"
| by_ReadElem: "reachable zero st \<Longrightarrow> ReadElem zero st = Inr (res1, st') \<Longrightarrow> reachable zero st'"
| by_Peek: "reachable zero st \<Longrightarrow> Peek n st = Inr (res2, st') \<Longrightarrow> reachable zero st'"
| by_Discard: "reachable zero st \<Longrightarrow> Discard n st = Inr (res, st') \<Longrightarrow> reachable zero st'"
| by_UnreadElem: "reachable zero st \<Longrightarrow> UnreadElem st = Inr (res3, st') \<Longrightarrow> reachable zero st'"
| by_WriteTo: "reachable zero st \<Longrightarrow> sink_ok wr \<Longrightarrow>
               WriteTo wr k st = Some (Inr (res, st', k')) \<Longrightarrow> reachable zero st'"
| by_Reset: "reachable zero st \<Longrightarrow>
             (case x' of Itself \<Rightarrow> True | Another y s' \<Rightarrow> source_ok y) \<Longrightarrow>
             reachable zero (Reset zero x' st)"
| by_poke: "reachable zero st \<Longrightarrow> reachable zero (poke a i v st)"

text \<open>
  A source over a list: each \<open>Read\<close> delivers as much of what is left as the slice
  holds, and \<open>(0, e)\<close> once nothing is left, for an error \<open>e\<close> fixed in advance
  (\<open>io.EOF\<close> for a source that simply ends).
\<close>

definition list_Read ::
  "error \<Rightarrow> 'a list \<Rightarrow> 'a list \<Rightarrow> int \<times> error option \<times> 'a list \<times> 'a list"
where
  "list_Read e s p =
     (if s = [] then (0, Some e, [], [])
      else (int (min (length p) (length s)), None,
            take (min (length p) (length s)) s, drop (min (length p) (length s)) s))"

definition list_source :: "error \<Rightarrow> ('a, 'a list, 'k) ReadInterface" where
  "list_source e = \<lparr>rd_Read = list_Read e, rd_WriteTo = None\<rparr>"

definition two_elems :: "(int, int list, int list) machine" where
  "two_elems = new_machine 0 (list_source EOF) [5, 6] (\<lambda>a. replicate 4 0) 16"

lemma source_okD:
  "source_ok x \<Longrightarrow> rd_Read x s p = (n, e, p', s') \<Longrightarrow> 0 \<le> n \<and> n \<le> int (length p)"
  unfolding source_ok_def by (drule spec [of _ s], drule spec [of _ p]) simp

lemma sink_okD:
  "sink_ok wr \<Longrightarrow> w_Write wr k xs = (n, e, k') \<Longrightarrow> 0 \<le> n \<and> n \<le> int (length xs)"
  unfolding sink_ok_def by (drule spec [of _ k], drule spec [of _ xs]) simp

lemma fill_loop_inv:
  "fill_loop i st = Inr st' \<Longrightarrow> reader_inv st \<Longrightarrow> reader_inv st'"
proof (induction i arbitrary: st)
  case 0
  then show ?case by (auto simp: reader_inv_def)
next
  case (Suc i)
  from Suc.prems obtain p where p: "slice (buf st) (w st) (int (length (buf st))) = Inr p"
    by (auto split: sum.splits)
  then have lp: "length p = length (buf st) - nat (w st)"
    by (auto simp: slice_def split: if_splits)
  obtain n e p' s' where c: "rd_Read (rd st) (src st) p = (n, e, p', s')"
    by (cases "rd_Read (rd st) (src st) p") auto
  define st1 where "st1 = st\<lparr>buf := take (nat (w st)) (buf st) @ copy p p',
                             w := w st + n, src := s', calls := Suc (calls st)\<rparr>"
  from Suc.prems(2) have ok: "source_ok (rd st)" by (simp add: reader_inv_def)
  from source_okD [OF ok c] have n0: "0 \<le> n" "n \<le> int (length p)" by simp_all
  from p have wr: "0 \<le> w st" "w st \<le> int (length (buf st))"
    by (auto simp: slice_def split: if_splits)
  have l1: "length (buf st1) = length (buf st)" using wr lp by (simp add: st1_def)
  have ne1: "buf st1 \<noteq> []" using l1 Suc.prems(2) by (auto simp: reader_inv_def)
  have "w st1 \<le> int (length (buf st1))" using n0 lp wr l1 by (simp add: st1_def)
  moreover have "r st1 = r st" "rd st1 = rd st" "w st \<le> w st1" using n0 by (simp_all add: st1_def)
  ultimately have i1: "reader_inv st1"
    using Suc.prems(2) ne1 by (simp add: reader_inv_def)
  show ?case
  proof (cases "e \<noteq> None")
    case True
    then have "st' = st1\<lparr>err := e\<rparr>" using Suc.prems p c n0 by (simp add: st1_def Let_def)
    with i1 show ?thesis by (simp add: reader_inv_def)
  next
    case False
    note eN = this
    show ?thesis
    proof (cases "n > 0")
      case True
      then have "st' = st1" using Suc.prems p c eN by (simp add: st1_def Let_def)
      with i1 show ?thesis by simp
    next
      case False
      then have "fill_loop i st1 = Inr st'" using Suc.prems p c eN n0 by (simp add: st1_def Let_def)
      from Suc.IH [OF this i1] show ?thesis .
    qed
  qed
qed

lemma slide_inv:
  assumes "slide st = Inr st'" and "reader_inv st"
  shows "reader_inv st'"
proof (cases "r st > 0")
  case True
  with assms(1) obtain xs where xs: "slice (buf st) (r st) (w st) = Inr xs"
    and s: "st' = st\<lparr>buf := copy (buf st) xs, r := 0, w := w st - r st\<rparr>"
    by (cases "slice (buf st) (r st) (w st)") (simp_all add: slide_def)
  have l1: "length (buf st') = length (buf st)" by (simp add: s)
  have ne1: "buf st' \<noteq> []" using l1 assms(2) by (auto simp: reader_inv_def)
  have "r st' = 0" "w st' = w st - r st" "rd st' = rd st" by (simp_all add: s)
  with assms(2) l1 ne1 show ?thesis by (simp add: reader_inv_def)
next
  case False
  with assms show ?thesis by (simp add: slide_def)
qed

lemma fill_inv:
  assumes "fill st = Inr st'" and "reader_inv st"
  shows "reader_inv st'"
proof -
  from assms(1) obtain st1 where s1: "slide st = Inr st1"
    and fl: "fill_loop maxConsecutiveEmptyReads st1 = Inr st'"
    by (cases "slide st") (simp_all add: fill_def split: if_splits)
  from fill_loop_inv [OF fl slide_inv [OF s1 assms(2)]] show ?thesis .
qed

lemma Peek_loop_inv:
  "Peek_loop n st = Inr st' \<Longrightarrow> reader_inv st \<Longrightarrow> reader_inv st'"
proof (induction n st rule: Peek_loop.induct)
  case (1 n st)
  show ?case
  proof (cases "w st - r st < n \<and> w st - r st < int (length (buf st)) \<and> err st = None")
    case True
    with "1.prems" obtain b where b: "fill st = Inr b" "Peek_loop n b = Inr st'"
      by (cases "fill st") (simp_all add: Peek_loop.simps [of n st])
    from "1.IH" [OF True b fill_inv [OF b(1) "1.prems"(2)]] show ?thesis .
  next
    case False
    with "1.prems" show ?thesis by (simp add: Peek_loop.simps [of n st])
  qed
qed

lemma Peek_inv:
  assumes "Peek n st = Inr (res, st')" and "reader_inv st"
  shows "reader_inv st'"
proof (cases "n < 0")
  case True
  with assms show ?thesis by (simp add: Peek_def)
next
  case False
  with assms obtain st1 where pl: "Peek_loop n (st\<lparr>lastElem := None\<rparr>) = Inr st1"
    by (cases "Peek_loop n (st\<lparr>lastElem := None\<rparr>)") (simp_all add: Peek_def)
  have "reader_inv (st\<lparr>lastElem := None\<rparr>)" using assms(2) by (simp add: reader_inv_def)
  from Peek_loop_inv [OF pl this] have i1: "reader_inv st1" .
  from assms False pl have "st' = st1 \<or> st' = st1\<lparr>err := None\<rparr>"
    by (auto simp: Peek_def readErr_def split: if_splits sum.splits)
  with i1 show ?thesis by (auto simp: reader_inv_def)
qed

lemma Discard_loop_inv:
  "Discard_loop n remain st = Inr (res, st') \<Longrightarrow> reader_inv st \<Longrightarrow> 0 \<le> remain \<Longrightarrow>
     reader_inv st'"
proof (induction n remain st rule: Discard_loop.induct)
  case (1 n remain st)
  from "1.prems" obtain b where b: "(if Buffered st = 0 then fill st else Inr st) = Inr b"
    by (cases "if Buffered st = 0 then fill st else Inr st")
       (simp_all add: Discard_loop.simps [of n remain st])
  then have ib: "reader_inv b"
    using "1.prems"(2) by (auto split: if_splits dest: fill_inv)
  define skip where "skip = (if remain < Buffered b then remain else Buffered b)"
  define st2 where "st2 = b\<lparr>r := r b + skip\<rparr>"
  define remain' where "remain' = remain - skip"
  have sk: "0 \<le> skip" "skip \<le> Buffered b" "skip \<le> remain"
    using ib "1.prems"(3) by (auto simp: skip_def reader_inv_def Buffered_def)
  have i2: "reader_inv st2"
    using ib sk by (auto simp: reader_inv_def st2_def Buffered_def)
  have eq: "Discard_loop n remain st =
      (if remain' = 0 then Inr ((n, None), st2)
       else if err st2 \<noteq> None
         then (case readErr st2 of (e, st3) \<Rightarrow> Inr ((n - remain', e), st3))
         else Discard_loop n remain' st2)"
    using b by (simp add: Discard_loop.simps [of n remain st] Let_def skip_def st2_def remain'_def)
  show ?case
  proof (cases "remain' = 0")
    case True
    with eq "1.prems" have "st' = st2" by simp
    with i2 show ?thesis by simp
  next
    case False
    note r0 = this
    show ?thesis
    proof (cases "err st2 = None")
      case True
      with eq "1.prems" r0 have d: "Discard_loop n remain' st2 = Inr (res, st')" by simp
      have "0 \<le> remain'" using sk by (simp add: remain'_def)
      from "1.IH" [OF b skip_def st2_def remain'_def r0 _ d i2 this] True show ?thesis
        by simp
    next
      case False
      with eq "1.prems" r0 have "st' = st2\<lparr>err := None\<rparr>" by (simp add: readErr_def)
      with i2 show ?thesis by (simp add: reader_inv_def)
    qed
  qed
qed

lemma Discard_inv:
  assumes "Discard n st = Inr (res, st')" and "reader_inv st"
  shows "reader_inv st'"
proof (cases "n \<le> 0")
  case True
  with assms show ?thesis by (auto simp: Discard_def split: if_splits)
next
  case False
  with assms have d: "Discard_loop n n (st\<lparr>lastElem := None\<rparr>) = Inr (res, st')"
    by (simp add: Discard_def)
  have "reader_inv (st\<lparr>lastElem := None\<rparr>)" using assms(2) by (simp add: reader_inv_def)
  from Discard_loop_inv [OF d this] False show ?thesis by simp
qed


lemma Read_copy_inv:
  assumes "Read_copy p st = Inr (res, st')" and "reader_inv st"
  shows "reader_inv st'"
proof -
  from assms(1) obtain xs where xs: "slice (buf st) (r st) (w st) = Inr xs"
    by (cases "slice (buf st) (r st) (w st)") (simp_all add: Read_copy_def)
  then have lx: "int (length xs) = w st - r st"
    by (auto simp: slice_def split: if_splits)
  define n where "n = int (min (length (mem st p)) (length xs))"
  from assms(1) xs
  have s: "st' = st\<lparr>r := r st + n, mem := (mem st)(p := copy (mem st p) xs),
                     lastElem := Some (InBuf (nat (r st + n - 1)))\<rparr>"
    by (simp add: Read_copy_def Let_def n_def split: if_splits)
  have "0 \<le> n" "n \<le> w st - r st" using lx by (simp_all add: n_def)
  moreover have "r st' = r st + n" "w st' = w st" "buf st' = buf st" "rd st' = rd st"
    by (simp_all add: s)
  ultimately show ?thesis using assms(2) by (simp add: reader_inv_def)
qed

lemma Read_inv:
  assumes "Read p st = Inr (res, st')" and "reader_inv st"
  shows "reader_inv st'"
proof (cases "length (mem st p) = 0")
  case True
  with assms(1) have "st' = st \<or> st' = st\<lparr>err := None\<rparr>"
    by (auto simp: Read_def readErr_def split: if_splits)
  with assms(2) show ?thesis by (auto simp: reader_inv_def)
next
  case False
  note ne = this
  show ?thesis
  proof (cases "r st = w st")
    case False
    with ne assms(1) have "Read_copy p st = Inr (res, st')" by (simp add: Read_def)
    from Read_copy_inv [OF this assms(2)] show ?thesis .
  next
    case True
    note rw = this
    show ?thesis
    proof (cases "err st \<noteq> None")
      case True
      with rw ne assms(1) have "st' = st\<lparr>err := None\<rparr>" by (auto simp: Read_def readErr_def)
      with assms(2) show ?thesis by (simp add: reader_inv_def)
    next
      case False
      note eN = this
      show ?thesis
      proof (cases "length (mem st p) \<ge> length (buf st)")
        case True
        obtain n e1 p' s' where c: "rd_Read (rd st) (src st) (mem st p) = (n, e1, p', s')"
          by (cases "rd_Read (rd st) (src st) (mem st p)") auto
        from assms(1) rw ne eN True c
        have "r st' = r st \<and> w st' = w st \<and> buf st' = buf st \<and> rd st' = rd st"
          by (auto simp: Read_def readErr_def Let_def split: if_splits)
        with assms(2) show ?thesis by (simp add: reader_inv_def)
      next
        case False
        note small = this
        obtain n e1 p' s' where c: "rd_Read (rd st) (src st) (buf st) = (n, e1, p', s')"
          by (cases "rd_Read (rd st) (src st) (buf st)") auto
        define st1 where "st1 = st\<lparr>buf := copy (buf st) p', r := 0, w := 0, err := e1,
                             src := s', calls := Suc (calls st)\<rparr>"
        from assms(2) have ok: "source_ok (rd st)" by (simp add: reader_inv_def)
        from source_okD [OF ok c] have n0: "0 \<le> n" "n \<le> int (length (buf st))" by simp_all
        have l1: "length (buf st1) = length (buf st)" by (simp add: st1_def)
        have ne1: "buf st1 \<noteq> []" using l1 assms(2) by (auto simp: reader_inv_def)
        have f1: "r st1 = 0" "w st1 = 0" "rd st1 = rd st" by (simp_all add: st1_def)
        show ?thesis
        proof (cases "n = 0")
          case True
          with assms(1) rw ne eN small c have "st' = st1\<lparr>err := None\<rparr>"
            by (auto simp add: Read_def readErr_def Let_def st1_def)
          with f1 l1 ne1 ok show ?thesis by (simp add: reader_inv_def)
        next
          case False
          with assms(1) rw ne eN small c
          have rc: "Read_copy p (st1\<lparr>w := w st1 + n\<rparr>) = Inr (res, st')"
            by (simp add: Read_def Let_def st1_def split: if_splits)
          have "reader_inv (st1\<lparr>w := w st1 + n\<rparr>)"
            using f1 l1 ne1 ok n0 by (simp add: reader_inv_def)
          from Read_copy_inv [OF rc this] show ?thesis .
        qed
      qed
    qed
  qed
qed

lemma ReadElem_inv:
  "ReadElem zero st = Inr (res, st') \<Longrightarrow> reader_inv st \<Longrightarrow> reader_inv st'"
proof (induction zero st rule: ReadElem.induct)
  case (1 zero st)
  show ?case
  proof (cases "r st = w st")
    case True
    note rw = this
    show ?thesis
    proof (cases "err st = None")
      case True
      with rw "1.prems" obtain b where b: "fill st = Inr b" "ReadElem zero b = Inr (res, st')"
        by (cases "fill st") (simp_all add: ReadElem.simps [of zero st])
      from "1.IH" [OF rw _ b fill_inv [OF b(1) "1.prems"(2)]] True show ?thesis by simp
    next
      case False
      with rw "1.prems"(1) have "st' = st\<lparr>err := None\<rparr>"
        by (auto simp add: ReadElem.simps [of zero st] readErr_def)
      with "1.prems"(2) show ?thesis by (simp add: reader_inv_def)
    qed
  next
    case False
    with "1.prems"(1) have "st' = st\<lparr>r := r st + 1, lastElem := Some (Cell (buf st ! nat (r st)))\<rparr>"
      by (auto simp add: ReadElem.simps [of zero st] Let_def split: if_splits)
    with "1.prems"(2) False show ?thesis by (simp add: reader_inv_def)
  qed
qed

lemma UnreadElem_inv:
  assumes "UnreadElem st = Inr (res, st')" and "reader_inv st"
  shows "reader_inv st'"
proof (cases "lastElem st")
  case None
  with assms show ?thesis by (simp add: UnreadElem_def)
next
  case (Some q)
  show ?thesis
  proof (cases "r st = 0 \<and> w st > 0")
    case True
    with assms Some show ?thesis by (simp add: UnreadElem_def)
  next
    case False
    note ok = this
    show ?thesis
    proof (cases "r st > 0")
      case True
      with assms(1) Some ok
      have s: "st' = st\<lparr>r := r st - 1, buf := (buf st)[nat (r st - 1) := deref (st\<lparr>r := r st - 1\<rparr>) q],
                       lastElem := None\<rparr>"
        by (simp add: UnreadElem_def Let_def split: if_splits)
      have l1: "length (buf st') = length (buf st)" by (simp add: s)
      have ne1: "buf st' \<noteq> []" using l1 assms(2) by (auto simp: reader_inv_def)
      have "r st' = r st - 1" "w st' = w st" "rd st' = rd st" by (simp_all add: s)
      with l1 ne1 assms(2) True show ?thesis by (simp add: reader_inv_def)
    next
      case False
      with ok assms(2) have z: "r st = 0" "w st = 0" by (auto simp: reader_inv_def)
      with assms(1) Some
      have s: "st' = st\<lparr>w := 1, buf := (buf st)[0 := deref (st\<lparr>w := 1\<rparr>) q], lastElem := None\<rparr>"
        by (simp add: UnreadElem_def Let_def split: if_splits)
      have l1: "length (buf st') = length (buf st)" by (simp add: s)
      have ne1: "buf st' \<noteq> []" using l1 assms(2) by (auto simp: reader_inv_def)
      then have "1 \<le> int (length (buf st'))" by (cases "buf st'") simp_all
      moreover have "r st' = 0" "w st' = 1" "rd st' = rd st" using z by (simp_all add: s)
      ultimately show ?thesis using ne1 assms(2) by (simp add: reader_inv_def)
    qed
  qed
qed

lemma writeBuf_inv:
  assumes "writeBuf wr k st = Inr (res, st', k')" and "reader_inv st" and "sink_ok wr"
  shows "reader_inv st'"
proof -
  from assms(1) obtain xs where xs: "slice (buf st) (r st) (w st) = Inr xs"
    by (cases "slice (buf st) (r st) (w st)") (simp_all add: writeBuf_def)
  then have lx: "int (length xs) = w st - r st"
    by (auto simp: slice_def split: if_splits)
  obtain n e k1 where c: "w_Write wr k xs = (n, e, k1)" by (cases "w_Write wr k xs") auto
  from assms(1) xs c have s: "st' = st\<lparr>r := r st + n\<rparr>"
    by (simp add: writeBuf_def split: if_splits)
  from sink_okD [OF assms(3) c] lx have "0 \<le> n" "n \<le> w st - r st" by simp_all
  with assms(2) show ?thesis by (simp add: reader_inv_def s)
qed

lemma WriteTo_loop_inv_aux:
  assumes "WriteTo_loop wr n k st = Some y"
  shows "sink_ok wr \<longrightarrow> reader_inv st \<longrightarrow>
           (\<forall>res st' k'. y = Inr (res, st', k') \<longrightarrow> reader_inv st')"
proof (rule WriteTo_loop.raw_induct
    [where P = "\<lambda>wr n k st y. sink_ok wr \<longrightarrow> reader_inv st \<longrightarrow>
           (\<forall>res st' k'. y = Inr (res, st', k') \<longrightarrow> reader_inv st')", OF _ assms],
    goal_cases)
  case (1 f wr n k st y)
  note IH = 1(1) and eq = 1(2)
  show ?case
  proof (intro impI)
    assume sk: "sink_ok wr" and iv: "reader_inv st"
    show "\<forall>res st' k'. y = Inr (res, st', k') \<longrightarrow> reader_inv st'"
    proof (cases "r st < w st")
      case True
      note lt = this
      show ?thesis
      proof (cases "writeBuf wr k st")
        case (Inl x)
        with eq lt have "y = Inl x" by simp
        then show ?thesis by simp
      next
        case (Inr res1)
        obtain m e st1 k1 where res1: "res1 = ((m, e), st1, k1)" by (cases res1) auto
        note wb = Inr [unfolded res1]
        note i1 = writeBuf_inv [OF wb iv sk]
        show ?thesis
        proof (cases "e \<noteq> None")
          case True
          with eq wb lt have "y = Inr ((n + m, e), st1, k1)" by simp
          with i1 show ?thesis by simp
        next
          case False
          note eN = this
          show ?thesis
          proof (cases "fill st1")
            case (Inl x)
            with eq wb lt eN have "y = Inl x" by simp
            then show ?thesis by simp
          next
            case (Inr st2)
            with eq wb lt eN have "f wr (n + m) k1 st2 = Some y" by simp
            from IH [OF this] sk fill_inv [OF Inr i1] show ?thesis by simp
          qed
        qed
      qed
    next
      case False
      with eq have "y = Inr ((n, if err st = Some EOF then None else err st), st\<lparr>err := None\<rparr>, k)"
        by (cases "err st = Some EOF") (simp_all add: readErr_def)
      with iv show ?thesis by (simp add: reader_inv_def)
    qed
  qed
qed

lemma WriteTo_loop_inv:
  assumes "WriteTo_loop wr n k st = Some (Inr (res, st', k'))" and "sink_ok wr" and "reader_inv st"
  shows "reader_inv st'"
  using WriteTo_loop_inv_aux [OF assms(1)] assms(2,3) by simp

lemma WriteTo_inv:
  assumes "WriteTo wr k st = Some (Inr (res, st', k'))" and "sink_ok wr" and "reader_inv st"
  shows "reader_inv st'"
proof -
  from assms(1) obtain n e st1 k1 where
    wb: "writeBuf wr k (st\<lparr>lastElem := None\<rparr>) = Inr ((n, e), st1, k1)"
    by (cases "writeBuf wr k (st\<lparr>lastElem := None\<rparr>)") (auto simp: WriteTo_def)
  have "reader_inv (st\<lparr>lastElem := None\<rparr>)" using assms(3) by (simp add: reader_inv_def)
  from writeBuf_inv [OF wb this assms(2)] have i1: "reader_inv st1" .
  show ?thesis
  proof (cases "e \<noteq> None")
    case True
    with assms(1) wb i1 show ?thesis by (simp add: WriteTo_def)
  next
    case False
    note eN = this
    show ?thesis
    proof (cases "rd_WriteTo (rd st1)")
      case (Some f)
      obtain m e' s' k2 where c: "f (src st1) k1 = (m, e', s', k2)"
        by (cases "f (src st1) k1") auto
      with assms(1) wb eN Some have "st' = st1\<lparr>src := s'\<rparr>" by (simp add: WriteTo_def)
      with i1 show ?thesis by (simp add: reader_inv_def)
    next
      case None
      note a = this
      show ?thesis
      proof (cases "w_ReadFrom wr")
        case (Some g)
        obtain m e' k2 s' where c: "g k1 (src st1) = (m, e', k2, s')"
          by (cases "g k1 (src st1)") auto
        with assms(1) wb eN a Some have "st' = st1\<lparr>src := s'\<rparr>" by (simp add: WriteTo_def)
        with i1 show ?thesis by (simp add: reader_inv_def)
      next
        case None
        with assms(1) wb eN a obtain st2 where
          s2: "(if w st1 - r st1 < int (length (buf st1)) then fill st1 else Inr st1) = Inr st2"
          and lp: "WriteTo_loop wr n k1 st2 = Some (Inr (res, st', k'))"
          by (cases "if w st1 - r st1 < int (length (buf st1)) then fill st1 else Inr st1")
             (simp_all add: WriteTo_def)
        from s2 i1 have "reader_inv st2" by (auto split: if_splits dest: fill_inv)
        from WriteTo_loop_inv [OF lp assms(2) this] show ?thesis .
      qed
    qed
  qed
qed

lemma new_machine_inv: "source_ok x \<Longrightarrow> reader_inv (new_machine zero x s m sz)"
  by (auto simp: reader_inv_def new_machine_def reset_def make_def minReadBufferSize_def)

lemma Reset_inv:
  assumes "reader_inv st" and "case x of Itself \<Rightarrow> True | Another x' s' \<Rightarrow> source_ok x'"
  shows "reader_inv (Reset zero x st)"
proof (cases x)
  case Itself
  with assms show ?thesis by (simp add: Reset_def)
next
  case (Another x' s')
  with assms show ?thesis
    by (auto simp: Reset_def reset_def reader_inv_def Let_def make_def defaultBufSize_def)
qed

lemma poke_inv: "reader_inv st \<Longrightarrow> reader_inv (poke a i v st)"
  by (simp add: reader_inv_def poke_def)


lemma source_ok_list_source: "source_ok (list_source e)"
  by (simp add: source_ok_def list_source_def list_Read_def)

lemma reachable_inv: "reachable zero st \<Longrightarrow> reader_inv st"
proof (induction rule: reachable.induct)
  case (fresh x s m sz)
  then show ?case by (rule new_machine_inv)
next
  case (by_Read st p res st')
  show ?case by (rule Read_inv [OF by_Read.hyps(2) by_Read.IH])
next
  case (by_ReadElem st res1 st')
  show ?case by (rule ReadElem_inv [OF by_ReadElem.hyps(2) by_ReadElem.IH])
next
  case (by_Peek st n res2 st')
  show ?case by (rule Peek_inv [OF by_Peek.hyps(2) by_Peek.IH])
next
  case (by_Discard st n res st')
  show ?case by (rule Discard_inv [OF by_Discard.hyps(2) by_Discard.IH])
next
  case (by_UnreadElem st res3 st')
  show ?case by (rule UnreadElem_inv [OF by_UnreadElem.hyps(2) by_UnreadElem.IH])
next
  case (by_WriteTo st wr k res st' k')
  show ?case by (rule WriteTo_inv [OF by_WriteTo.hyps(3) by_WriteTo.hyps(2) by_WriteTo.IH])
next
  case (by_Reset st x')
  show ?case by (rule Reset_inv [OF by_Reset.IH by_Reset.hyps(2)])
next
  case (by_poke st a i v)
  show ?case by (rule poke_inv [OF by_poke.IH])
qed

lemma two_elems_ReadElem:
  "\<exists>st. ReadElem 0 two_elems = Inr ((5, None), st) \<and> r st = 1 \<and> w st = 2 \<and> Size st = 16"
  by (simp add: ReadElem.simps two_elems_def new_machine_def reset_def make_def
      minReadBufferSize_def list_source_def list_Read_def fill_def slide_def slice_def
      maxConsecutiveEmptyReads_def fill_loop_numeral copy_def Size_def)

text \<open>
  C5. In every state reachable from a freshly constructed reader by \<open>Read\<close>,
  \<open>ReadElem\<close>, \<open>Peek\<close>, \<open>Discard\<close>, \<open>UnreadElem\<close>, \<open>WriteTo\<close> and \<open>Reset\<close>
  (\<open>Buffered\<close> and \<open>Size\<close> change nothing), with sources and sinks whose counts lie
  between 0 and the length of the slice they were given, \<open>0 \<le> r \<le> w \<le> capacity\<close>.
\<close>

theorem cursor_invariant:
  "reachable zero st \<Longrightarrow> 0 \<le> r st \<and> r st \<le> w st \<and> w st \<le> Size st"
  using reachable_inv [of zero st] by (simp add: reader_inv_def Size_def)

theorem cursor_invariant_witness:
  "\<exists>st. ReadElem 0 two_elems = Inr ((5, None), st) \<and> reachable 0 st \<and>
        r st = 1 \<and> w st = 2 \<and> Size st = 16 \<and> 0 \<le> r st \<and> r st \<le> w st \<and> w st \<le> Size st"
proof -
  from two_elems_ReadElem obtain st where
    a: "ReadElem 0 two_elems = Inr ((5, None), st)" "r st = 1" "w st = 2" "Size st = 16"
    by blast
  have "reachable 0 two_elems"
    unfolding two_elems_def by (rule reachable.fresh) (rule source_ok_list_source)
  then have b: "reachable 0 st" using a(1) by (rule reachable.by_ReadElem)
  from cursor_invariant [OF b] a b show ?thesis by blast
qed

section \<open>Read calls the source at most once\<close>

lemma Read_copy_result:
  assumes "Read_copy p st = Inr ((n, e), st')"
  shows "e = None \<and> calls st' = calls st \<and> n \<le> int (length (mem st p))"
proof -
  from assms obtain xs where xs: "slice (buf st) (r st) (w st) = Inr xs"
    by (cases "slice (buf st) (r st) (w st)") (simp_all add: Read_copy_def)
  with assms show ?thesis
    by (auto simp: Read_copy_def Let_def split: if_splits)
qed

text \<open>
  C6. A \<open>Read\<close> that returns has called the source's \<open>Read\<close> at most once, and not
  at all when the buffer held data. The count it returns is at most the length of the
  destination, and whenever it returns elements that came through the buffer (the buffer
  held data, or the destination is shorter than the buffer, so the direct path was not
  taken) the error is nil, however short the read.
\<close>

theorem Read_one_source_call:
  assumes "Read p st = Inr ((n, e), st')"
  shows "calls st' \<le> calls st + 1
    \<and> (r st \<noteq> w st \<longrightarrow> calls st' = calls st)
    \<and> n \<le> int (length (mem st p))
    \<and> (0 < n \<longrightarrow> r st \<noteq> w st \<or> length (mem st p) < length (buf st) \<longrightarrow> e = None)"
proof (cases "length (mem st p) = 0")
  case True
  with assms have "n = 0 \<and> calls st' = calls st"
    by (auto simp: Read_def readErr_def split: if_splits)
  then show ?thesis by simp
next
  case False
  note ne = this
  show ?thesis
  proof (cases "r st = w st")
    case False
    with ne assms have "Read_copy p st = Inr ((n, e), st')" by (simp add: Read_def)
    from Read_copy_result [OF this] show ?thesis by simp
  next
    case True
    note rw = this
    show ?thesis
    proof (cases "err st \<noteq> None")
      case True
      with rw ne assms have "n = 0 \<and> calls st' = calls st"
        by (auto simp: Read_def readErr_def)
      then show ?thesis by simp
    next
      case False
      note eN = this
      show ?thesis
      proof (cases "length (mem st p) \<ge> length (buf st)")
        case True
        obtain k e1 p' s' where c: "rd_Read (rd st) (src st) (mem st p) = (k, e1, p', s')"
          by (cases "rd_Read (rd st) (src st) (mem st p)") auto
        from assms rw ne eN True c
        have "calls st' = Suc (calls st) \<and> n \<le> int (length (mem st p))"
          by (auto simp: Read_def readErr_def Let_def split: if_splits)
        with rw True show ?thesis by simp
      next
        case False
        note small = this
        obtain k e1 p' s' where c: "rd_Read (rd st) (src st) (buf st) = (k, e1, p', s')"
          by (cases "rd_Read (rd st) (src st) (buf st)") auto
        define st1 where "st1 = st\<lparr>buf := copy (buf st) p', r := 0, w := 0, err := e1,
                             src := s', calls := Suc (calls st)\<rparr>"
        show ?thesis
        proof (cases "k = 0")
          case True
          with assms rw ne eN small c have "n = 0 \<and> calls st' = Suc (calls st)"
            by (auto simp add: Read_def readErr_def Let_def)
          with rw show ?thesis by simp
        next
          case False
          with assms rw ne eN small c
          have rc: "Read_copy p (st1\<lparr>w := w st1 + k\<rparr>) = Inr ((n, e), st')"
            by (simp add: Read_def Let_def st1_def split: if_splits)
          from Read_copy_result [OF rc] rw show ?thesis by (simp add: st1_def)
        qed
      qed
    qed
  qed
qed

lemma two_elems_Read:
  "\<exists>st. Read 0 two_elems = Inr ((2, None), st) \<and> calls st = 1"
  by (simp add: Read_def Read_copy_def two_elems_def new_machine_def reset_def make_def
      minReadBufferSize_def list_source_def list_Read_def slice_def copy_def Buffered_def)

theorem Read_one_source_call_witness:
  "\<exists>st. Read 0 two_elems = Inr ((2, None), st) \<and> calls two_elems = 0 \<and> calls st = 1 \<and>
        calls st \<le> calls two_elems + 1 \<and> length (mem two_elems 0) = 4"
proof -
  from two_elems_Read obtain st where a: "Read 0 two_elems = Inr ((2, None), st)" "calls st = 1"
    by blast
  have "calls two_elems = 0" "length (mem two_elems 0) = 4"
    by (simp_all add: two_elems_def new_machine_def reset_def)
  with Read_one_source_call [OF a(1)] a show ?thesis by blast
qed

section \<open>Peek beyond the capacity\<close>

text \<open>
  On a reader whose cursors are in range, over a source that keeps to its precondition,
  \<open>fill\<close> with room in the buffer returns, and so does the loop of \<open>Peek\<close>.
\<close>

lemma fill_loop_returns:
  "source_ok (rd st) \<Longrightarrow> 0 \<le> w st \<Longrightarrow> w st \<le> int (length (buf st)) \<Longrightarrow>
     \<exists>st'. fill_loop i st = Inr st'"
proof (induction i arbitrary: st)
  case 0
  then show ?case by simp
next
  case (Suc i)
  let ?p = "drop (nat (w st)) (buf st)"
  have sl: "slice (buf st) (w st) (int (length (buf st))) = Inr ?p"
    using Suc.prems by (simp add: slice_def)
  obtain n e p' s' where c: "rd_Read (rd st) (src st) ?p = (n, e, p', s')"
    by (cases "rd_Read (rd st) (src st) ?p") auto
  from source_okD [OF Suc.prems(1) c] have n0: "0 \<le> n" "n \<le> int (length ?p)" by simp_all
  define st1 where "st1 = st\<lparr>buf := take (nat (w st)) (buf st) @ copy ?p p',
                             w := w st + n, src := s', calls := Suc (calls st)\<rparr>"
  have "source_ok (rd st1)" "0 \<le> w st1" "w st1 \<le> int (length (buf st1))"
    using Suc.prems n0 by (simp_all add: st1_def)
  from Suc.IH [OF this] obtain st2 where st2: "fill_loop i st1 = Inr st2" by blast
  have eq: "fill_loop (Suc i) st =
      (if e \<noteq> None then Inr (st1\<lparr>err := e\<rparr>) else if n > 0 then Inr st1 else fill_loop i st1)"
    using sl c n0 by (simp add: st1_def Let_def)
  show ?case
  proof (cases "e \<noteq> None")
    case True
    with eq show ?thesis by simp
  next
    case False
    with eq st2 show ?thesis by (cases "n > 0") simp_all
  qed
qed

lemma fill_returns:
  assumes "reader_inv st" and "Buffered st < int (length (buf st))"
  shows "\<exists>st'. fill st = Inr st'"
proof -
  have "\<exists>st1. slide st = Inr st1"
    using assms(1) by (simp add: slide_def slice_def reader_inv_def)
  then obtain st1 where s1: "slide st = Inr st1" by blast
  from slide_inv [OF s1 assms(1)] have i1: "reader_inv st1" .
  have "Buffered st1 = Buffered st \<and> r st1 \<le> 0 \<and> length (buf st1) = length (buf st)"
    using s1 by (cases "r st > 0") (auto simp: slide_def Buffered_def split: sum.splits)
  with assms(2) i1 have lt: "w st1 < int (length (buf st1))"
    by (simp add: Buffered_def reader_inv_def)
  from i1 have "source_ok (rd st1)" "0 \<le> w st1" "w st1 \<le> int (length (buf st1))"
    by (simp_all add: reader_inv_def)
  from fill_loop_returns [OF this] obtain st' where
    "fill_loop maxConsecutiveEmptyReads st1 = Inr st'" by blast
  with s1 lt show ?thesis by (simp add: fill_def)
qed

lemma Peek_loop_length:
  "Peek_loop n st = Inr st' \<Longrightarrow> length (buf st') = length (buf st)"
proof (induction n st rule: Peek_loop.induct)
  case (1 n st)
  show ?case
  proof (cases "w st - r st < n \<and> w st - r st < int (length (buf st)) \<and> err st = None")
    case True
    with "1.prems" obtain b where b: "fill st = Inr b" "Peek_loop n b = Inr st'"
      by (cases "fill st") (simp_all add: Peek_loop.simps [of n st])
    from "1.IH" [OF True b] fill_progress(1) [OF b(1)] show ?thesis by simp
  next
    case False
    with "1.prems" show ?thesis by (simp add: Peek_loop.simps [of n st])
  qed
qed

lemma Peek_loop_returns:
  "reader_inv st \<Longrightarrow> \<exists>st'. Peek_loop n st = Inr st'"
proof (induction n st rule: Peek_loop.induct)
  case (1 n st)
  show ?case
  proof (cases "w st - r st < n \<and> w st - r st < int (length (buf st)) \<and> err st = None")
    case True
    then have "Buffered st < int (length (buf st))" by (simp add: Buffered_def)
    from fill_returns [OF "1.prems" this] obtain b where b: "fill st = Inr b" by blast
    from "1.IH" [OF True b fill_inv [OF b "1.prems"]] obtain st' where
      st': "Peek_loop n b = Inr st'" by blast
    from True have c: "w st - r st < n" "w st - r st < int (length (buf st))" "err st = None"
      by simp_all
    have "Peek_loop n st = Peek_loop n b"
      using c b by (simp add: Peek_loop.simps [of n st])
    with st' show ?thesis by simp
  next
    case False
    have "Peek_loop n st = Inr st"
      unfolding Peek_loop.simps [of n st] using False by (rule if_not_P)
    then show ?thesis by simp
  qed
qed

text \<open>
  C7. For \<open>n\<close> greater than the capacity, a \<open>Peek(n)\<close> that returns, from any state and
  over any source, returns \<open>ErrBufferFull\<close> together with the whole valid region
  \<open>buf[r:w]\<close> of the state it leaves; and it does return on every reader whose cursors
  are in range over a source that keeps to its precondition.
\<close>

theorem Peek_beyond_capacity:
  assumes "Size st < n"
  shows "(\<forall>xs e st'. Peek n st = Inr ((xs, e), st') \<longrightarrow>
            e = Some ErrBufferFull \<and> slice (buf st') (r st') (w st') = Inr xs)
       \<and> (reader_inv st \<longrightarrow>
            (\<exists>xs st'. Peek n st = Inr ((xs, Some ErrBufferFull), st') \<and>
                      slice (buf st') (r st') (w st') = Inr xs))"
proof (rule conjI)
  show "\<forall>xs e st'. Peek n st = Inr ((xs, e), st') \<longrightarrow>
            e = Some ErrBufferFull \<and> slice (buf st') (r st') (w st') = Inr xs"
  proof (intro allI impI)
  fix xs e st'
  assume p: "Peek n st = Inr ((xs, e), st')"
  from assms have n0: "\<not> n < 0" by (simp add: Size_def)
  with p obtain st1 where pl: "Peek_loop n (st\<lparr>lastElem := None\<rparr>) = Inr st1"
    by (cases "Peek_loop n (st\<lparr>lastElem := None\<rparr>)") (simp_all add: Peek_def)
  from Peek_loop_length [OF pl] assms have big: "int (length (buf st1)) < n"
    by (simp add: Size_def)
  from p n0 pl big obtain ys where "slice (buf st1) (r st1) (w st1) = Inr ys"
    "Inr ((ys, Some ErrBufferFull), st1) = (Inr ((xs, e), st') :: panic + _)"
    by (cases "slice (buf st1) (r st1) (w st1)") (simp_all add: Peek_def)
  then show "e = Some ErrBufferFull \<and> slice (buf st') (r st') (w st') = Inr xs" by simp
  qed
next
  show "reader_inv st \<longrightarrow>
            (\<exists>xs st'. Peek n st = Inr ((xs, Some ErrBufferFull), st') \<and>
                      slice (buf st') (r st') (w st') = Inr xs)"
  proof
  assume iv: "reader_inv st"
  from assms have n0: "\<not> n < 0" by (simp add: Size_def)
  have "reader_inv (st\<lparr>lastElem := None\<rparr>)" using iv by (simp add: reader_inv_def)
  from Peek_loop_returns [OF this] obtain st1 where
    pl: "Peek_loop n (st\<lparr>lastElem := None\<rparr>) = Inr st1" by blast
  from Peek_loop_inv [OF pl \<open>reader_inv (st\<lparr>lastElem := None\<rparr>)\<close>] have i1: "reader_inv st1" .
  from Peek_loop_length [OF pl] assms have big: "int (length (buf st1)) < n"
    by (simp add: Size_def)
  from i1 obtain ys where ys: "slice (buf st1) (r st1) (w st1) = Inr ys"
    by (simp add: slice_def reader_inv_def)
  with n0 pl big have "Peek n st = Inr ((ys, Some ErrBufferFull), st1)"
    by (simp add: Peek_def)
  with ys show "\<exists>xs st'. Peek n st = Inr ((xs, Some ErrBufferFull), st') \<and>
                      slice (buf st') (r st') (w st') = Inr xs" by blast
  qed
qed

lemma two_elems_Peek:
  "\<exists>st'. Peek 17 two_elems = Inr (([5, 6], Some ErrBufferFull), st') \<and> err st' = Some EOF"
  by (simp add: Peek_def Peek_loop.simps two_elems_def new_machine_def reset_def make_def
      minReadBufferSize_def list_source_def list_Read_def fill_def slide_def slice_def
      maxConsecutiveEmptyReads_def fill_loop_numeral copy_def)

theorem Peek_beyond_capacity_witness:
  "Size two_elems = 16 \<and>
   (\<exists>st'. Peek 17 two_elems = Inr (([5, 6], Some ErrBufferFull), st') \<and>
          slice (buf st') (r st') (w st') = Inr [5, 6])"
proof -
  have s: "Size two_elems = 16"
    by (simp add: Size_def two_elems_def new_machine_def reset_def make_def minReadBufferSize_def)
  then have lt: "Size two_elems < 17" by simp
  have iv: "reader_inv two_elems"
    unfolding two_elems_def by (rule new_machine_inv) (rule source_ok_list_source)
  from two_elems_Peek obtain st' where
    a: "Peek 17 two_elems = Inr (([5, 6], Some ErrBufferFull), st')" by blast
  from Peek_beyond_capacity [OF lt] iv a s show ?thesis by blast
qed

section \<open>Construction\<close>

text \<open>A heap that holds one reader, of capacity 64, over a source that is not a reader.\<close>

definition heap64 :: "(int, unit iface) Reader list" where
  "heap64 = [\<lparr>buf = replicate 64 0, rd = Foreign (), r = 0, w = 0, err = None, lastElem = None\<rparr>]"

text \<open>
  C9. When the argument is a pointer to a reader whose capacity is at least the requested
  size, \<open>NewReaderSize\<close> returns that pointer and leaves the heap as it is. In every
  other case that does not dereference a nil reader it allocates a new reader around its
  argument, and the heap's other readers stay as they are: the new reader's capacity is
  16 for a request below 16, and the request itself otherwise.
\<close>

theorem NewReaderSize_contract:
  "(x = ReaderPtr a \<longrightarrow> a < length h \<longrightarrow> sz \<le> SizeAt h a \<longrightarrow>
      NewReaderSize zero h x sz = Inr (a, h))
   \<and> ((\<forall>a. x = ReaderPtr a \<longrightarrow> a < length h \<and> SizeAt h a < sz) \<longrightarrow>
      (\<exists>h'. NewReaderSize zero h x sz = Inr (length h, h') \<and>
            length h' = Suc (length h) \<and> take (length h) h' = h \<and>
            rd (h' ! length h) = x \<and>
            (sz < 16 \<longrightarrow> SizeAt h' (length h) = 16) \<and>
            (16 \<le> sz \<longrightarrow> SizeAt h' (length h) = sz)))"
proof (intro conjI impI)
  assume "x = ReaderPtr a" "a < length h" "sz \<le> SizeAt h a"
  then show "NewReaderSize zero h x sz = Inr (a, h)"
    by (simp add: NewReaderSize_def SizeAt_def)
next
  assume w: "\<forall>a. x = ReaderPtr a \<longrightarrow> a < length h \<and> SizeAt h a < sz"
  define b where "b = reset (make (if sz < minReadBufferSize then minReadBufferSize else sz) zero) x
                    \<lparr>buf = [], rd = NilIface, r = 0, w = 0, err = None, lastElem = None\<rparr>"
  have "NewReaderSize zero h x sz = Inr (length h, h @ [b])"
    using w by (cases x) (auto simp: NewReaderSize_def SizeAt_def b_def Let_def)
  moreover have "rd b = x" by (simp add: b_def reset_def)
  moreover have "sz < 16 \<longrightarrow> int (length (buf b)) = 16" "16 \<le> sz \<longrightarrow> int (length (buf b)) = sz"
    by (simp_all add: b_def reset_def make_def minReadBufferSize_def)
  ultimately show "\<exists>h'. NewReaderSize zero h x sz = Inr (length h, h') \<and>
            length h' = Suc (length h) \<and> take (length h) h' = h \<and>
            rd (h' ! length h) = x \<and>
            (sz < 16 \<longrightarrow> SizeAt h' (length h) = 16) \<and>
            (16 \<le> sz \<longrightarrow> SizeAt h' (length h) = sz)"
    by (intro exI [of _ "h @ [b]"]) (simp add: SizeAt_def)
qed

theorem NewReaderSize_contract_witness:
  "NewReaderSize 0 heap64 (ReaderPtr 0) 64 = Inr (0, heap64)
   \<and> (\<exists>h'. NewReaderSize 0 heap64 (Foreign ()) 5 = Inr (1, h') \<and> SizeAt h' 1 = 16 \<and>
            rd (h' ! 1) = Foreign () \<and> take 1 h' = heap64)
   \<and> (\<exists>h'. NewReaderSize 0 heap64 (ReaderPtr 0) 100 = Inr (1, h') \<and> SizeAt h' 1 = 100 \<and>
            rd (h' ! 1) = ReaderPtr 0 \<and> take 1 h' = heap64)"
proof -
  have l: "length heap64 = 1" "SizeAt heap64 0 = 64" by (simp_all add: heap64_def SizeAt_def)
  have w1: "\<forall>a. (Foreign () :: unit iface) = ReaderPtr a \<longrightarrow> a < length heap64 \<and> SizeAt heap64 a < 5"
    by simp
  have w2: "\<forall>a. (ReaderPtr 0 :: unit iface) = ReaderPtr a \<longrightarrow> a < length heap64 \<and> SizeAt heap64 a < 100"
    using l by simp
  from NewReaderSize_contract [of "ReaderPtr 0" 0 heap64 64 0] l
  have "NewReaderSize 0 heap64 (ReaderPtr 0) 64 = Inr (0, heap64)" by simp
  moreover from NewReaderSize_contract [of "Foreign ()" 0 heap64 5 0] w1 l
  have "\<exists>h'. NewReaderSize 0 heap64 (Foreign ()) 5 = Inr (1, h') \<and> SizeAt h' 1 = 16 \<and>
            rd (h' ! 1) = Foreign () \<and> take 1 h' = heap64" by auto
  moreover from NewReaderSize_contract [of "ReaderPtr 0" 0 heap64 100 0] w2 l
  have "\<exists>h'. NewReaderSize 0 heap64 (ReaderPtr 0) 100 = Inr (1, h') \<and> SizeAt h' 1 = 100 \<and>
            rd (h' ! 1) = ReaderPtr 0 \<and> take 1 h' = heap64" by auto
  ultimately show ?thesis by blast
qed


text \<open>
  A request below the minimum over a reader that is large enough: the reader comes back
  as it is, with its capacity of 64, not the minimum of 16.
\<close>

theorem NewReaderSize_existing_reader_not_clamped:
  "NewReaderSize 0 heap64 (ReaderPtr 0) 5 = Inr (0, heap64) \<and> SizeAt heap64 0 = 64 \<and>
   (5 :: int) < minReadBufferSize"
  by (simp add: NewReaderSize_def heap64_def SizeAt_def minReadBufferSize_def)

section \<open>Discard on an empty buffer with an error pending\<close>

text \<open>
  A reader of capacity 16 with an empty buffer and \<open>io.EOF\<close> pending, over a source
  that answers its next call with \<open>(0, e)\<close> for another error \<open>e\<close>.
\<close>

definition pending_eof :: "(int, int list, int list) machine" where
  "pending_eof = (new_machine 0 (list_source (OtherError 7)) [] (\<lambda>a. replicate 4 0) 16)
                   \<lparr>err := Some EOF\<rparr>"

text \<open>
  Every \<open>fill\<close> that returns has called the source at least once, and \<open>Discard\<close>'s
  loop returns on a reader whose cursors are in range over a source that keeps to its
  precondition.
\<close>

lemma fill_loop_calls:
  "fill_loop i st = Inr st' \<Longrightarrow> calls st \<le> calls st' \<and> (0 < i \<longrightarrow> calls st < calls st')"
proof (induction i arbitrary: st)
  case 0
  then show ?case by auto
next
  case (Suc i)
  from Suc.prems obtain p where p: "slice (buf st) (w st) (int (length (buf st))) = Inr p"
    by (auto split: sum.splits)
  obtain n e p' s' where c: "rd_Read (rd st) (src st) p = (n, e, p', s')"
    by (cases "rd_Read (rd st) (src st) p") auto
  define st1 where "st1 = st\<lparr>buf := take (nat (w st)) (buf st) @ copy p p',
                             w := w st + n, src := s', calls := Suc (calls st)\<rparr>"
  have n0: "0 \<le> n" using Suc.prems p c by (auto split: if_splits)
  show ?case
  proof (cases "e \<noteq> None")
    case True
    then have "st' = st1\<lparr>err := e\<rparr>" using Suc.prems p c n0 by (simp add: st1_def Let_def)
    then show ?thesis by (simp add: st1_def)
  next
    case False
    note eN = this
    show ?thesis
    proof (cases "n > 0")
      case True
      then have "st' = st1" using Suc.prems p c eN by (simp add: st1_def Let_def)
      then show ?thesis by (simp add: st1_def)
    next
      case False
      then have "fill_loop i st1 = Inr st'" using Suc.prems p c eN n0 by (simp add: st1_def Let_def)
      from Suc.IH [OF this] show ?thesis by (simp add: st1_def)
    qed
  qed
qed

lemma fill_calls:
  assumes "fill st = Inr st'"
  shows "calls st < calls st'"
proof -
  from assms obtain st1 where s1: "slide st = Inr st1"
    and fl: "fill_loop maxConsecutiveEmptyReads st1 = Inr st'"
    by (cases "slide st") (simp_all add: fill_def split: if_splits)
  from slide_frame [OF s1] fill_loop_calls [OF fl] show ?thesis
    by (simp add: maxConsecutiveEmptyReads_def)
qed

lemma Discard_loop_calls:
  "Discard_loop n remain st = Inr (res, st') \<Longrightarrow>
     calls st \<le> calls st' \<and> (Buffered st = 0 \<longrightarrow> calls st < calls st')"
proof (induction n remain st rule: Discard_loop.induct)
  case (1 n remain st)
  from "1.prems" obtain b where b: "(if Buffered st = 0 then fill st else Inr st) = Inr b"
    by (cases "if Buffered st = 0 then fill st else Inr st")
       (simp_all add: Discard_loop.simps [of n remain st])
  then have fb: "calls st \<le> calls b \<and> (Buffered st = 0 \<longrightarrow> calls st < calls b)"
    by (cases "Buffered st = 0") (auto dest: fill_calls)
  define skip where "skip = (if remain < Buffered b then remain else Buffered b)"
  define st2 where "st2 = b\<lparr>r := r b + skip\<rparr>"
  define remain' where "remain' = remain - skip"
  have eq: "Discard_loop n remain st =
      (if remain' = 0 then Inr ((n, None), st2)
       else if err st2 \<noteq> None
         then (case readErr st2 of (e, st3) \<Rightarrow> Inr ((n - remain', e), st3))
         else Discard_loop n remain' st2)"
    using b by (simp add: Discard_loop.simps [of n remain st] Let_def skip_def st2_def remain'_def)
  show ?case
  proof (cases "remain' = 0")
    case True
    with eq "1.prems" have "st' = st2" by simp
    with fb show ?thesis by (simp add: st2_def)
  next
    case False
    note r0 = this
    show ?thesis
    proof (cases "err st2 = None")
      case True
      with eq "1.prems" r0 have "Discard_loop n remain' st2 = Inr (res, st')" by simp
      from "1.IH" [OF b skip_def st2_def remain'_def r0 _ this] True
      have "calls st2 \<le> calls st'" by simp
      with fb show ?thesis by (auto simp add: st2_def)
    next
      case False
      with eq "1.prems" r0 have "st' = st2\<lparr>err := None\<rparr>" by (simp add: readErr_def)
      with fb show ?thesis by (simp add: st2_def)
    qed
  qed
qed

lemma Discard_loop_returns:
  "reader_inv st \<Longrightarrow> 0 \<le> remain \<Longrightarrow> \<exists>res st'. Discard_loop n remain st = Inr (res, st')"
proof (induction n remain st rule: Discard_loop.induct)
  case (1 n remain st)
  have "\<exists>b. (if Buffered st = 0 then fill st else Inr st) = Inr b"
  proof (cases "Buffered st = 0")
    case True
    with "1.prems"(1) have "Buffered st < int (length (buf st))"
      by (cases "buf st") (simp_all add: reader_inv_def)
    from fill_returns [OF "1.prems"(1) this] True show ?thesis by simp
  next
    case False
    then show ?thesis by simp
  qed
  then obtain b where b: "(if Buffered st = 0 then fill st else Inr st) = Inr b" by blast
  then have ib: "reader_inv b"
    using "1.prems"(1) by (cases "Buffered st = 0") (auto dest: fill_inv)
  define skip where "skip = (if remain < Buffered b then remain else Buffered b)"
  define st2 where "st2 = b\<lparr>r := r b + skip\<rparr>"
  define remain' where "remain' = remain - skip"
  have sk: "0 \<le> skip" "skip \<le> Buffered b" "skip \<le> remain"
    using ib "1.prems"(2) by (auto simp: skip_def reader_inv_def Buffered_def)
  have i2: "reader_inv st2"
    using ib sk by (auto simp: reader_inv_def st2_def Buffered_def)
  have eq: "Discard_loop n remain st =
      (if remain' = 0 then Inr ((n, None), st2)
       else if err st2 \<noteq> None
         then (case readErr st2 of (e, st3) \<Rightarrow> Inr ((n - remain', e), st3))
         else Discard_loop n remain' st2)"
    using b by (simp add: Discard_loop.simps [of n remain st] Let_def skip_def st2_def remain'_def)
  show ?case
  proof (cases "remain' = 0")
    case True
    with eq show ?thesis by simp
  next
    case False
    note r0 = this
    show ?thesis
    proof (cases "err st2 = None")
      case True
      have "0 \<le> remain'" using sk by (simp add: remain'_def)
      from "1.IH" [OF b skip_def st2_def remain'_def r0 _ i2 this] True
      obtain res st' where "Discard_loop n remain' st2 = Inr (res, st')" by auto
      with eq r0 True show ?thesis by simp
    next
      case False
      with eq r0 show ?thesis by (simp add: readErr_def)
    qed
  qed
qed


lemma fill_empty_error:
  assumes "reader_inv st" and "r st = w st"
    and "rd_Read (rd st) (src st) (buf st) = (m, Some e2, p', s')"
  shows "\<exists>st'. fill st = Inr st' \<and> r st' = 0 \<and> w st' = m \<and> err st' = Some e2 \<and>
               calls st' = calls st + 1 \<and> lastElem st' = lastElem st"
proof -
  define sA where "sA = (if r st > 0 then st\<lparr>buf := copy (buf st) [], r := 0, w := w st - r st\<rparr> else st)"
  have sl: "slide st = Inr sA"
    using assms(1,2) by (simp add: slide_def slice_def sA_def reader_inv_def)
  have a: "r sA = 0" "w sA = 0" "buf sA = buf st" "rd sA = rd st" "src sA = src st"
      "calls sA = calls st" "lastElem sA = lastElem st"
    using assms(1,2) by (auto simp: sA_def copy_def reader_inv_def)
  from assms(1) have ne: "buf st \<noteq> []" and ok: "source_ok (rd st)" by (simp_all add: reader_inv_def)
  from source_okD [OF ok assms(3)] have m0: "0 \<le> m" by simp
  have sp: "slice (buf sA) (w sA) (int (length (buf sA))) = Inr (buf st)"
    using a by (simp add: slice_def)
  have "fill_loop 100 sA =
      Inr (sA\<lparr>buf := take (nat (w sA)) (buf sA) @ copy (buf st) p',
              w := w sA + m, src := s', calls := Suc (calls sA), err := Some e2\<rparr>)"
    using sp a assms(3) m0 by (simp add: fill_loop_numeral Let_def)
  moreover have "\<not> w sA \<ge> int (length (buf sA))" using a ne by simp
  ultimately have "fill st =
      Inr (sA\<lparr>buf := take (nat (w sA)) (buf sA) @ copy (buf st) p',
              w := w sA + m, src := s', calls := Suc (calls sA), err := Some e2\<rparr>)"
    using sl by (simp add: fill_def maxConsecutiveEmptyReads_def)
  with a show ?thesis by simp
qed

text \<open>
  C10. With the buffer empty and an error \<open>e1\<close> pending, \<open>Discard(n)\<close> for \<open>n > 0\<close>
  calls the source before it returns, while \<open>Read\<close> and \<open>ReadElem\<close> return \<open>e1\<close>
  and call nothing (they change only \<open>err\<close>). When the source answers that call with
  \<open>m\<close> elements and an error \<open>e2\<close>, \<open>Discard\<close> has called it once, returns
  \<open>min m n\<close> and, if short, \<open>e2\<close>, and the error left pending is \<open>e2\<close> or none:
  \<open>e1\<close> is neither returned nor kept.
\<close>

theorem Discard_refills_despite_pending_error:
  assumes "reader_inv st" and "r st = w st" and "err st = Some e1" and "0 < n"
  shows "(\<exists>res st'. Discard n st = Inr (res, st') \<and> calls st < calls st')
     \<and> Read p st = Inr ((0, Some e1), st\<lparr>err := None\<rparr>)
     \<and> ReadElem zero st = Inr ((zero, Some e1), st\<lparr>err := None\<rparr>)
     \<and> (rd_Read (rd st) (src st) (buf st) = (m, Some e2, p', s') \<longrightarrow>
          (\<exists>st'. Discard n st = Inr ((min m n, if n \<le> m then None else Some e2), st') \<and>
                 err st' = (if n \<le> m then Some e2 else None) \<and> calls st' = calls st + 1))"
proof (intro conjI impI)
  define st0 where "st0 = st\<lparr>lastElem := None\<rparr>"
  have i0: "reader_inv st0" using assms(1) by (simp add: st0_def reader_inv_def)
  have d: "Discard n st = Discard_loop n n st0" using assms(4) by (simp add: Discard_def st0_def)
  from Discard_loop_returns [OF i0, of n n] assms(4) obtain res st' where
    dl: "Discard_loop n n st0 = Inr (res, st')" by auto
  have "Buffered st0 = 0" using assms(2) by (simp add: st0_def Buffered_def)
  with Discard_loop_calls [OF dl] have "calls st < calls st'" by (simp add: st0_def)
  with d dl show "\<exists>res st'. Discard n st = Inr (res, st') \<and> calls st < calls st'" by auto
next
  show "Read p st = Inr ((0, Some e1), st\<lparr>err := None\<rparr>)"
    using assms(2,3) by (simp add: Read_def readErr_def Buffered_def)
next
  show "ReadElem zero st = Inr ((zero, Some e1), st\<lparr>err := None\<rparr>)"
    using assms(2,3) by (simp add: ReadElem.simps [of zero st] readErr_def)
next
  assume c: "rd_Read (rd st) (src st) (buf st) = (m, Some e2, p', s')"
  define st0 where "st0 = st\<lparr>lastElem := None\<rparr>"
  have i0: "reader_inv st0" using assms(1) by (simp add: st0_def reader_inv_def)
  have d: "Discard n st = Discard_loop n n st0" using assms(4) by (simp add: Discard_def st0_def)
  have "rd_Read (rd st0) (src st0) (buf st0) = (m, Some e2, p', s')" "r st0 = w st0"
    using c assms(2) by (simp_all add: st0_def)
  from fill_empty_error [OF i0 this(2) this(1)] obtain b where
    b: "fill st0 = Inr b" "r b = 0" "w b = m" "err b = Some e2" "calls b = calls st0 + 1"
    by blast
  have b0: "Buffered st0 = 0" using assms(2) by (simp add: st0_def Buffered_def)
  have bb: "Buffered b = m" using b by (simp add: Buffered_def)
  define skip where "skip = (if n < Buffered b then n else Buffered b)"
  define st2 where "st2 = b\<lparr>r := r b + skip\<rparr>"
  have eq: "Discard_loop n n st0 =
      (if n - skip = 0 then Inr ((n, None), st2)
       else if err st2 \<noteq> None
         then (case readErr st2 of (e, st3) \<Rightarrow> Inr ((n - (n - skip), e), st3))
         else Discard_loop n (n - skip) st2)"
    using b(1) b0 by (simp add: Discard_loop.simps [of n n st0] Let_def skip_def st2_def)
  show "\<exists>st'. Discard n st = Inr ((min m n, if n \<le> m then None else Some e2), st') \<and>
                 err st' = (if n \<le> m then Some e2 else None) \<and> calls st' = calls st + 1"
  proof (cases "n \<le> m")
    case True
    then have "skip = n" using bb by (simp add: skip_def)
    with eq d have "Discard n st = Inr ((n, None), st2)" by simp
    moreover have "err st2 = Some e2" "calls st2 = calls st + 1" using b by (simp_all add: st2_def st0_def)
    ultimately show ?thesis using True by (simp add: min_def)
  next
    case False
    then have sk: "skip = m" using bb by (simp add: skip_def)
    have "err st2 = Some e2" using b by (simp add: st2_def)
    with eq d sk False have "Discard n st = Inr ((m, Some e2), st2\<lparr>err := None\<rparr>)"
      by (simp add: readErr_def)
    moreover have "calls (st2\<lparr>err := None\<rparr>) = calls st + 1" using b by (simp add: st2_def st0_def)
    ultimately show ?thesis using False by (simp add: min_def)
  qed
qed

theorem Discard_refills_despite_pending_error_witness:
  "(\<exists>st'. Discard 3 pending_eof = Inr ((0, Some (OtherError 7)), st') \<and> err st' = None \<and>
          calls st' = 1)
   \<and> calls pending_eof = 0 \<and> err pending_eof = Some EOF
   \<and> Read 0 pending_eof = Inr ((0, Some EOF), pending_eof\<lparr>err := None\<rparr>)
   \<and> ReadElem 0 pending_eof = Inr ((0, Some EOF), pending_eof\<lparr>err := None\<rparr>)"
proof -
  have iv: "reader_inv (new_machine 0 (list_source (OtherError 7)) [] (\<lambda>a. replicate 4 0) 16
              :: (int, int list, int list) machine)"
    by (rule new_machine_inv) (rule source_ok_list_source)
  then have h1: "reader_inv pending_eof" by (simp add: pending_eof_def reader_inv_def)
  have h2: "r pending_eof = w pending_eof" and h3: "err pending_eof = Some EOF"
    and c0: "calls pending_eof = 0"
    by (simp_all add: pending_eof_def new_machine_def reset_def)
  have h4: "(0 :: int) < 3" by simp
  have c: "rd_Read (rd pending_eof) (src pending_eof) (buf pending_eof) =
             (0, Some (OtherError 7), [], [])"
    by (simp add: pending_eof_def new_machine_def reset_def list_source_def list_Read_def)
  from Discard_refills_despite_pending_error [OF h1 h2 h3 h4, of 0 0 0 "OtherError 7" "[]" "[]"]
    c c0 h3 show ?thesis by simp
qed

section \<open>WriteTo over a finite source\<close>










subsection \<open>One round of the loop\<close>







subsection \<open>The example sources and sink\<close>










subsection \<open>The transfer\<close>




end
